theory Spec2Isabelle
  imports Main
begin

section \<open>Identifier namespaces (\<^verbatim>\<open>shiny/_namespaces.py\<close>)\<close>

subsection \<open>Python strings and exceptions\<close>

text \<open>
  A Python \<^verbatim>\<open>str\<close> is a sequence of Unicode code points, so it is modelled as a list of
  natural numbers (an Isabelle \<^typ>\<open>char\<close> is a byte and would not do). ASCII literals of
  the source are written through \<open>ascii\<close>.
\<close>

type_synonym codepoint = nat
type_synonym str = "codepoint list"

definition ascii :: "string \<Rightarrow> str" where
  "ascii cs = map of_char cs"

text \<open>The exceptions the modules raise themselves, each with its message.\<close>

datatype exn = ValueError str | TypeError str | KeyError str

subsection \<open>The regular expression \<^verbatim>\<open>^\.?\w+$\<close>\<close>

text \<open>
  \<^verbatim>\<open>\w\<close> in a \<^verbatim>\<open>str\<close> pattern compiled without \<^verbatim>\<open>re.ASCII\<close> is the Unicode word class:
  the alphanumeric code points and the underscore. The alphanumerics below 256 are written
  out; those above come from the interpreter's Unicode database, which is taken as the
  parameter \<open>U\<close>.
\<close>

definition ascii_alnum :: "codepoint \<Rightarrow> bool" where
  "ascii_alnum c \<longleftrightarrow> (48 \<le> c \<and> c \<le> 57) \<or> (65 \<le> c \<and> c \<le> 90) \<or> (97 \<le> c \<and> c \<le> 122)"

definition latin1_alnum :: "codepoint \<Rightarrow> bool" where
  "latin1_alnum c \<longleftrightarrow>
     c \<in> {170, 178, 179, 181, 185, 186, 188, 189, 190} \<or>
     (192 \<le> c \<and> c \<le> 255 \<and> c \<noteq> 215 \<and> c \<noteq> 247)"

definition uni_alnum :: "(codepoint \<Rightarrow> bool) \<Rightarrow> codepoint \<Rightarrow> bool" where
  "uni_alnum U c = (if c < 128 then ascii_alnum c else if c < 256 then latin1_alnum c else U c)"

definition uni_word :: "(codepoint \<Rightarrow> bool) \<Rightarrow> codepoint \<Rightarrow> bool" where
  "uni_word U c \<longleftrightarrow> uni_alnum U c \<or> c = 95"

text \<open>
  The fragment of the pattern language the module uses: a character class is a literal or
  \<^verbatim>\<open>\w\<close>; an item is a class taken once, optionally (\<^verbatim>\<open>?\<close>) or one or more times (\<^verbatim>\<open>+\<close>),
  or one of the anchors \<^verbatim>\<open>^\<close> and \<^verbatim>\<open>$\<close>.
\<close>

datatype cls = Lit codepoint | WordCls

datatype item = One cls | Opt cls | Plus cls | Bol | Eol

fun cls_match :: "(codepoint \<Rightarrow> bool) \<Rightarrow> cls \<Rightarrow> codepoint \<Rightarrow> bool" where
  "cls_match U (Lit a) c = (c = a)"
| "cls_match U WordCls c = uni_word U c"

text \<open>Every rest of the subject that \<^verbatim>\<open>cls+\<close> can leave behind, longest match first.\<close>

fun plus_rems :: "(codepoint \<Rightarrow> bool) \<Rightarrow> cls \<Rightarrow> str \<Rightarrow> str list" where
  "plus_rems U k [] = []"
| "plus_rems U k (c # cs) = (if cls_match U k c then plus_rems U k cs @ [cs] else [])"

text \<open>
  The rests one item can leave behind when it is tried on \<open>rest\<close>, a suffix of
  \<open>subject\<close>. Without \<^verbatim>\<open>re.MULTILINE\<close>, \<^verbatim>\<open>^\<close> holds at the start of the subject only, and
  \<^verbatim>\<open>$\<close> holds at its end and also just before a newline that ends it.
\<close>

fun item_rems :: "(codepoint \<Rightarrow> bool) \<Rightarrow> str \<Rightarrow> item \<Rightarrow> str \<Rightarrow> str list" where
  "item_rems U subject (One k) rest =
     (case rest of [] \<Rightarrow> [] | c # cs \<Rightarrow> if cls_match U k c then [cs] else [])"
| "item_rems U subject (Opt k) rest =
     (case rest of [] \<Rightarrow> [rest] | c # cs \<Rightarrow> if cls_match U k c then [cs, rest] else [rest])"
| "item_rems U subject (Plus k) rest = plus_rems U k rest"
| "item_rems U subject Bol rest = (if length rest = length subject then [rest] else [])"
| "item_rems U subject Eol rest = (if rest = [] \<or> rest = [10] then [rest] else [])"

fun pat_rems :: "(codepoint \<Rightarrow> bool) \<Rightarrow> str \<Rightarrow> item list \<Rightarrow> str \<Rightarrow> str list" where
  "pat_rems U subject [] rest = [rest]"
| "pat_rems U subject (i # is) rest =
     concat (map (pat_rems U subject is) (item_rems U subject i rest))"

text \<open>\<^verbatim>\<open>Pattern.match\<close>: the pattern matches some prefix of the subject.\<close>

definition re_match :: "(codepoint \<Rightarrow> bool) \<Rightarrow> item list \<Rightarrow> str \<Rightarrow> bool" where
  "re_match U p subject \<longleftrightarrow> pat_rems U subject p subject \<noteq> []"

definition re_valid_id :: "item list" where
  "re_valid_id = [Bol, Opt (Lit 46), Plus WordCls, Eol]"

subsection \<open>\<^verbatim>\<open>validate_id\<close>, \<^verbatim>\<open>ResolvedId.__call__\<close> and \<^verbatim>\<open>resolve_id\<close>\<close>

definition invalid_id_message :: "str \<Rightarrow> str" where
  "invalid_id_message s =
     ascii ''The string '' @ [39] @ s @ [39] @
     ascii '' is not a valid id; only letters, numbers, and underscore are permitted''"

definition validate_id :: "(codepoint \<Rightarrow> bool) \<Rightarrow> str \<Rightarrow> exn + unit" where
  "validate_id U s =
     (if \<not> re_match U re_valid_id s then Inl (ValueError (invalid_id_message s)) else Inr ())"

text \<open>
  \<^verbatim>\<open>Id = Union[str, ResolvedId]\<close>: an id is a plain string or a string already resolved,
  and \<^verbatim>\<open>isinstance(id, ResolvedId)\<close> tells them apart.
\<close>

datatype Id = PlainStr str | ResolvedId str

text \<open>\<^verbatim>\<open>ResolvedId.__call__\<close>; \<open>self\<close> is the text of the namespace.\<close>

fun ResolvedId_call :: "(codepoint \<Rightarrow> bool) \<Rightarrow> str \<Rightarrow> Id \<Rightarrow> exn + Id" where
  "ResolvedId_call U self (ResolvedId r) = Inr (ResolvedId r)"
| "ResolvedId_call U self (PlainStr s) =
     (case validate_id U s of
        Inl e \<Rightarrow> Inl e
      | Inr _ \<Rightarrow> if self = [] then Inr (ResolvedId s) else Inr (ResolvedId (self @ [45] @ s)))"

definition Root :: str where
  "Root = []"

text \<open>
  \<^verbatim>\<open>resolve_id\<close> reads the context variable \<^verbatim>\<open>_current_namespace\<close>; its current value is the
  argument \<open>curr_ns\<close>.
\<close>

definition resolve_id :: "(codepoint \<Rightarrow> bool) \<Rightarrow> str \<Rightarrow> Id \<Rightarrow> exn + Id" where
  "resolve_id U curr_ns i = ResolvedId_call U curr_ns i"

text \<open>
  The pattern as the specification words it, \<^verbatim>\<open>^\.?[A-Za-z0-9_]+$\<close> over ASCII letters,
  digits and the underscore, and the same shape over the word class of the code.
\<close>

definition ascii_word :: "codepoint \<Rightarrow> bool" where
  "ascii_word c \<longleftrightarrow> ascii_alnum c \<or> c = 95"

definition strip_dot :: "str \<Rightarrow> str" where
  "strip_dot s = (case s of [] \<Rightarrow> [] | c # cs \<Rightarrow> if c = 46 then cs else s)"

definition spec_valid_id :: "str \<Rightarrow> bool" where
  "spec_valid_id s \<longleftrightarrow> strip_dot s \<noteq> [] \<and> list_all ascii_word (strip_dot s)"

definition word_valid_id :: "(codepoint \<Rightarrow> bool) \<Rightarrow> str \<Rightarrow> bool" where
  "word_valid_id U s \<longleftrightarrow> strip_dot s \<noteq> [] \<and> list_all (uni_word U) (strip_dot s)"

text \<open>
  A fragment of the Unicode database from 256 on, for concrete evaluations: the Greek
  capital and small letters are alphanumeric.
\<close>

definition greek_alnum :: "codepoint \<Rightarrow> bool" where
  "greek_alnum c \<longleftrightarrow> (913 \<le> c \<and> c \<le> 929) \<or> (931 \<le> c \<and> c \<le> 937) \<or> (945 \<le> c \<and> c \<le> 969)"

section \<open>The reactive engine (\<^verbatim>\<open>shiny/reactives.py\<close>)\<close>

subsection \<open>Python objects\<close>

text \<open>
  A value handled by the engine is a reference to a Python object: \<^verbatim>\<open>None\<close>, or an object
  at an address with its content. \<^verbatim>\<open>is\<close> compares addresses, \<^verbatim>\<open>==\<close> compares contents
  (exceptions keep the default, identity). The exception classes matter to
  \<^verbatim>\<open>except Exception\<close>: a \<open>UserBaseException\<close> derives from \<^verbatim>\<open>BaseException\<close> only.
\<close>

datatype content = IntV int | StrV str | Builtin exn | UserException str | UserBaseException str

datatype pyobj = NoneObj | Obj nat content

fun py_is :: "pyobj \<Rightarrow> pyobj \<Rightarrow> bool" where
  "py_is NoneObj NoneObj = True"
| "py_is (Obj a _) (Obj b _) = (a = b)"
| "py_is _ _ = False"

fun py_eq :: "pyobj \<Rightarrow> pyobj \<Rightarrow> bool" where
  "py_eq NoneObj NoneObj = True"
| "py_eq (Obj a (IntV x)) (Obj b (IntV y)) = (x = y)"
| "py_eq (Obj a (StrV x)) (Obj b (StrV y)) = (x = y)"
| "py_eq (Obj a _) (Obj b _) = (a = b)"
| "py_eq _ _ = False"

fun isinstance_Exception :: "pyobj \<Rightarrow> bool" where
  "isinstance_Exception (Obj _ (Builtin _)) = True"
| "isinstance_Exception (Obj _ (UserException _)) = True"
| "isinstance_Exception _ = False"

fun isinstance_BaseException :: "pyobj \<Rightarrow> bool" where
  "isinstance_BaseException (Obj _ (UserBaseException _)) = True"
| "isinstance_BaseException v = isinstance_Exception v"

text \<open>How a call ends: it returns an object or an exception object propagates out of it.\<close>

datatype outcome = Return pyobj | Raise pyobj

subsection \<open>The objects of the engine and the world they live in\<close>

text \<open>
  The callbacks that this module hands to a \<^verbatim>\<open>Context\<close> are closures over \<open>self\<close> (and, for
  the observer, over the context); they are represented by their code and the captured
  references.
\<close>

datatype invalidate_cb =
    Reactive_on_invalidate_cb nat
  | Observer_on_invalidate_cb nat nat

datatype flush_cb = Observer_on_flush_cb nat

text \<open>
  Modelled from the spec: \<^verbatim>\<open>reactcore.Context\<close> is not part of the sources at hand. A
  context has an id, the flag "has this context been invalidated", a list of invalidation
  callbacks and a list of flush callbacks. The id is the position in the store.
\<close>

record Context =
  ctx_invalidated :: bool
  ctx_invalidate_callbacks :: "invalidate_cb list"
  ctx_flush_callbacks :: "flush_cb list"

text \<open>
  Modelled from the spec: \<^verbatim>\<open>reactcore.Dependents\<close> is not part of the sources at hand. A
  \<^verbatim>\<open>Dependents\<close> object is the collection of the contexts registered with it, each at most
  once, kept in registration order; it is the field \<open>rv_dependents\<close> of a \<^verbatim>\<open>ReactiveVal\<close>
  and the field \<open>r_dependents\<close> of a \<^verbatim>\<open>Reactive\<close>.
\<close>

record reactive_val =
  rv_value :: pyobj
  rv_dependents :: "nat list"

text \<open>
  A function object is referred to by its position in the table of the user's functions;
  the \<^verbatim>\<open>lambda: None\<close> that the asynchronous constructors pass on is a function of its own.
\<close>

datatype funcref = UserFunc nat | LambdaNone

record reactive =
  r_func :: funcref
  r_is_async :: bool
  r_dependents :: "nat list"
  r_invalidated :: bool
  r_running :: bool
  r_most_recent_ctx_id :: int
  r_ctx :: "nat option"
  r_exec_count :: nat
  r_session :: "nat option"
  r_value :: pyobj
  r_error :: bool

text \<open>
  The callbacks registered through \<^verbatim>\<open>Observer.on_invalidate\<close> come from outside the engine;
  each is known by a number, and calling it is recorded in the world's \<open>called_back\<close>.
\<close>

record observer =
  o_func :: funcref
  o_is_async :: bool
  o_invalidate_callbacks :: "nat list"
  o_destroyed :: bool
  o_ctx :: "nat option"
  o_exec_count :: nat
  o_session :: "nat option"

text \<open>
  Modelled from the spec: the process-wide state of \<^verbatim>\<open>reactcore\<close> and \<^verbatim>\<open>shinysession\<close>, which
  are not part of the sources at hand, is the ambient current context, the pending
  collection of the flush scheduler (contexts, de-duplicated by identity), the ambient
  current session and the end-of-session callbacks registered with each session. The
  world holds them beside the objects, which are known by reference, and the counter from
  which the interpreter takes the address of a new exception object.
\<close>

record world =
  contexts :: "Context list"
  current_context :: "nat option"
  pending_flush :: "nat list"
  reactive_vals :: "nat \<Rightarrow> reactive_val"
  next_reactive_val :: nat
  reactives :: "nat \<Rightarrow> reactive"
  next_reactive :: nat
  observers :: "nat \<Rightarrow> observer"
  next_observer :: nat
  current_session :: "nat option"
  session_on_ended :: "(nat \<times> nat) list"
  called_back :: "nat list"
  next_addr :: nat

text \<open>
  A user function: whether \<^verbatim>\<open>inspect.iscoroutinefunction\<close> holds of it, and what a call does
  to the world. The world holds references to functions only, so the functions themselves
  are a table \<open>F\<close> beside it.
\<close>

record pyfunc =
  is_coroutine :: bool
  body :: "world \<Rightarrow> outcome \<times> world"

definition func_of :: "(nat \<Rightarrow> pyfunc) \<Rightarrow> funcref \<Rightarrow> pyfunc" where
  "func_of F f =
     (case f of
        UserFunc i \<Rightarrow> F i
      | LambdaNone \<Rightarrow> \<lparr>is_coroutine = False, body = (\<lambda>w. (Return NoneObj, w))\<rparr>)"

definition upd_context :: "nat \<Rightarrow> (Context \<Rightarrow> Context) \<Rightarrow> world \<Rightarrow> world" where
  "upd_context c f w = w\<lparr>contexts := (contexts w)[c := f (contexts w ! c)]\<rparr>"

definition upd_val :: "nat \<Rightarrow> (reactive_val \<Rightarrow> reactive_val) \<Rightarrow> world \<Rightarrow> world" where
  "upd_val v f w = w\<lparr>reactive_vals := (reactive_vals w)(v := f (reactive_vals w v))\<rparr>"

definition upd_reactive :: "nat \<Rightarrow> (reactive \<Rightarrow> reactive) \<Rightarrow> world \<Rightarrow> world" where
  "upd_reactive r f w = w\<lparr>reactives := (reactives w)(r := f (reactives w r))\<rparr>"

definition upd_observer :: "nat \<Rightarrow> (observer \<Rightarrow> observer) \<Rightarrow> world \<Rightarrow> world" where
  "upd_observer ob f w = w\<lparr>observers := (observers w)(ob := f (observers w ob))\<rparr>"

subsection \<open>\<^verbatim>\<open>Context\<close> and \<^verbatim>\<open>Dependents\<close>\<close>

text \<open>
  Modelled from the spec: \<^verbatim>\<open>Context()\<close> allocates a context with a new id, not invalidated
  and without callbacks.
\<close>

definition Context_new :: "world \<Rightarrow> nat \<times> world" where
  "Context_new w =
     (length (contexts w),
      w\<lparr>contexts := contexts w @
        [\<lparr>ctx_invalidated = False, ctx_invalidate_callbacks = [], ctx_flush_callbacks = []\<rparr>]\<rparr>)"

text \<open>
  Modelled from the spec: \<^verbatim>\<open>Context.add_pending_flush\<close> enqueues the context with the flush
  scheduler, where a context is pending at most once.
\<close>

definition Context_add_pending_flush :: "nat \<Rightarrow> world \<Rightarrow> world" where
  "Context_add_pending_flush c w =
     (if c \<in> set (pending_flush w) then w else w\<lparr>pending_flush := pending_flush w @ [c]\<rparr>)"

text \<open>Modelled from the spec: \<^verbatim>\<open>Context.on_flush\<close> appends to the flush callbacks.\<close>

definition Context_on_flush :: "nat \<Rightarrow> flush_cb \<Rightarrow> world \<Rightarrow> world" where
  "Context_on_flush c cb w =
     upd_context c (\<lambda>x. x\<lparr>ctx_flush_callbacks := ctx_flush_callbacks x @ [cb]\<rparr>) w"

text \<open>
  A \<^verbatim>\<open>Dependents\<close> object is a field of the \<^verbatim>\<open>ReactiveVal\<close> or the \<^verbatim>\<open>Reactive\<close> that owns it.
\<close>

datatype dependents_ref = ValDependents nat | ReactiveDependents nat

fun get_dependents :: "world \<Rightarrow> dependents_ref \<Rightarrow> nat list" where
  "get_dependents w (ValDependents v) = rv_dependents (reactive_vals w v)"
| "get_dependents w (ReactiveDependents r) = r_dependents (reactives w r)"

fun set_dependents :: "dependents_ref \<Rightarrow> nat list \<Rightarrow> world \<Rightarrow> world" where
  "set_dependents (ValDependents v) ds w = upd_val v (\<lambda>x. x\<lparr>rv_dependents := ds\<rparr>) w"
| "set_dependents (ReactiveDependents r) ds w = upd_reactive r (\<lambda>x. x\<lparr>r_dependents := ds\<rparr>) w"

text \<open>
  Modelled from the spec: \<^verbatim>\<open>Dependents.register\<close> adds the currently active context, if any
  is active; a context appears at most once.
\<close>

definition Dependents_register :: "dependents_ref \<Rightarrow> world \<Rightarrow> world" where
  "Dependents_register d w =
     (case current_context w of
        None \<Rightarrow> w
      | Some c \<Rightarrow>
          if c \<in> set (get_dependents w d) then w
          else set_dependents d (get_dependents w d @ [c]) w)"

text \<open>
  Invalidation is recursive through the callbacks: invalidating a context runs
  \<^verbatim>\<open>Reactive._on_invalidate_cb\<close>, which invalidates the dependents of the reactive, which are
  contexts again. The functions below take the invalidation of a context as the argument
  \<open>nested\<close>; \<open>None\<close> is a recursion cut off.
\<close>

fun invalidate_all :: "(world \<Rightarrow> nat \<Rightarrow> world option) \<Rightarrow> nat list \<Rightarrow> world \<Rightarrow> world option" where
  "invalidate_all nested [] w = Some w"
| "invalidate_all nested (c # cs) w =
     (case nested w c of None \<Rightarrow> None | Some w' \<Rightarrow> invalidate_all nested cs w')"

text \<open>
  Modelled from the spec: \<^verbatim>\<open>Dependents.invalidate\<close> notifies every member and then clears the
  set unconditionally.
\<close>

definition Dependents_invalidate_with ::
  "(world \<Rightarrow> nat \<Rightarrow> world option) \<Rightarrow> dependents_ref \<Rightarrow> world \<Rightarrow> world option" where
  "Dependents_invalidate_with nested d w =
     (case invalidate_all nested (get_dependents w d) w of
        None \<Rightarrow> None
      | Some w' \<Rightarrow> Some (set_dependents d [] w'))"

text \<open>The external callbacks of an observer are called in order.\<close>

definition call_external :: "nat list \<Rightarrow> world \<Rightarrow> world" where
  "call_external cbs w = w\<lparr>called_back := called_back w @ cbs\<rparr>"

text \<open>
  \<^verbatim>\<open>Reactive._on_invalidate_cb\<close> and the \<^verbatim>\<open>on_invalidate_cb\<close> of \<^verbatim>\<open>Observer._create_context\<close>.
\<close>

fun run_invalidate_cb ::
  "(world \<Rightarrow> nat \<Rightarrow> world option) \<Rightarrow> invalidate_cb \<Rightarrow> world \<Rightarrow> world option" where
  "run_invalidate_cb nested (Reactive_on_invalidate_cb r) w =
     (let w1 = upd_reactive r (\<lambda>x. x\<lparr>r_invalidated := True\<rparr>) w;
          w2 = upd_reactive r (\<lambda>x. x\<lparr>r_value := NoneObj\<rparr>) w1
      in case Dependents_invalidate_with nested (ReactiveDependents r) w2 of
           None \<Rightarrow> None
         | Some w3 \<Rightarrow> Some (upd_reactive r (\<lambda>x. x\<lparr>r_ctx := None\<rparr>) w3))"
| "run_invalidate_cb nested (Observer_on_invalidate_cb ob c) w =
     (let w1 = upd_observer ob (\<lambda>x. x\<lparr>o_ctx := None\<rparr>) w;
          w2 = call_external (o_invalidate_callbacks (observers w1 ob)) w1
      in Some (Context_add_pending_flush c w2))"

fun run_invalidate_cbs ::
  "(world \<Rightarrow> nat \<Rightarrow> world option) \<Rightarrow> invalidate_cb list \<Rightarrow> world \<Rightarrow> world option" where
  "run_invalidate_cbs nested [] w = Some w"
| "run_invalidate_cbs nested (cb # cbs) w =
     (case run_invalidate_cb nested cb w of None \<Rightarrow> None | Some w' \<Rightarrow> run_invalidate_cbs nested cbs w')"

text \<open>
  Modelled from the spec: \<^verbatim>\<open>Context.invalidate\<close> is idempotent; the first call marks the
  context invalidated and fires the invalidation callbacks in registration order, later
  calls do nothing. The first argument bounds the depth of the recursion.
\<close>

primrec Context_invalidate_depth :: "nat \<Rightarrow> world \<Rightarrow> nat \<Rightarrow> world option" where
  "Context_invalidate_depth 0 = (\<lambda>w c. None)"
| "Context_invalidate_depth (Suc n) = (\<lambda>w c.
     if c \<ge> length (contexts w) \<or> ctx_invalidated (contexts w ! c) then Some w
     else run_invalidate_cbs (Context_invalidate_depth n)
            (ctx_invalidate_callbacks (contexts w ! c))
            (upd_context c (\<lambda>x. x\<lparr>ctx_invalidated := True\<rparr>) w))"

text \<open>
  Each level of the recursion marks a context that was not invalidated, so no recursion is
  deeper than the number of such contexts: with that bound and one more, nothing is cut
  off (lemma \<open>Context_invalidate_depth_enough\<close> below).
\<close>

definition live_contexts :: "world \<Rightarrow> nat" where
  "live_contexts w = length (filter (\<lambda>x. \<not> ctx_invalidated x) (contexts w))"

definition finished :: "world \<Rightarrow> world option \<Rightarrow> world" where
  "finished w r = (case r of Some w' \<Rightarrow> w' | None \<Rightarrow> w)"

definition Context_invalidate :: "nat \<Rightarrow> world \<Rightarrow> world" where
  "Context_invalidate c w = finished w (Context_invalidate_depth (Suc (live_contexts w)) w c)"

definition Dependents_invalidate :: "dependents_ref \<Rightarrow> world \<Rightarrow> world" where
  "Dependents_invalidate d w =
     finished w (Dependents_invalidate_with (Context_invalidate_depth (Suc (live_contexts w))) d w)"

text \<open>
  Modelled from the spec: \<^verbatim>\<open>Context.on_invalidate\<close> registers a callback for the first
  invalidation; if the context is already invalidated the callback fires at once instead.
\<close>

definition Context_on_invalidate :: "nat \<Rightarrow> invalidate_cb \<Rightarrow> world \<Rightarrow> world" where
  "Context_on_invalidate c cb w =
     (if ctx_invalidated (contexts w ! c)
      then finished w (run_invalidate_cb (Context_invalidate_depth (Suc (live_contexts w))) cb w)
      else upd_context c (\<lambda>x. x\<lparr>ctx_invalidate_callbacks := ctx_invalidate_callbacks x @ [cb]\<rparr>) w)"

text \<open>
  Modelled from the spec: \<^verbatim>\<open>Context.run\<close> installs the context as the ambient current one
  while the function runs and restores the previous one afterwards, also when the function
  fails. The function runs inline.
\<close>

definition Context_run :: "nat \<Rightarrow> (world \<Rightarrow> outcome \<times> world) \<Rightarrow> world \<Rightarrow> outcome \<times> world" where
  "Context_run c fn w =
     (let old = current_context w;
          (res, w') = fn (w\<lparr>current_context := Some c\<rparr>)
      in (res, w'\<lparr>current_context := old\<rparr>))"

text \<open>
  Modelled from the spec: \<^verbatim>\<open>shinysession.session_context\<close> makes a session the ambient one
  for the duration of a block and restores the previous one on every exit path.
\<close>

definition session_context :: "nat option \<Rightarrow> (world \<Rightarrow> outcome \<times> world) \<Rightarrow> world \<Rightarrow> outcome \<times> world" where
  "session_context s fn w =
     (let old = current_session w;
          (res, w') = fn (w\<lparr>current_session := s\<rparr>)
      in (res, w'\<lparr>current_session := old\<rparr>))"

subsection \<open>\<^verbatim>\<open>ReactiveVal\<close> and \<^verbatim>\<open>ReactiveValues\<close>\<close>

definition ReactiveVal_init :: "pyobj \<Rightarrow> world \<Rightarrow> nat \<times> world" where
  "ReactiveVal_init value w =
     (next_reactive_val w,
      w\<lparr>reactive_vals := (reactive_vals w)
           (next_reactive_val w := \<lparr>rv_value = value, rv_dependents = []\<rparr>),
        next_reactive_val := Suc (next_reactive_val w)\<rparr>)"

definition ReactiveVal_get :: "nat \<Rightarrow> world \<Rightarrow> pyobj \<times> world" where
  "ReactiveVal_get v w =
     (let w1 = Dependents_register (ValDependents v) w
      in (rv_value (reactive_vals w1 v), w1))"

definition ReactiveVal_set :: "nat \<Rightarrow> pyobj \<Rightarrow> world \<Rightarrow> bool \<times> world" where
  "ReactiveVal_set v value w =
     (if py_is (rv_value (reactive_vals w v)) value then (False, w)
      else
        let w1 = upd_val v (\<lambda>x. x\<lparr>rv_value := value\<rparr>) w;
            w2 = Dependents_invalidate (ValDependents v) w1
        in (True, w2))"

text \<open>\<^verbatim>\<open>ReactiveVal.__call__\<close>: a write returns \<^verbatim>\<open>None\<close>, whatever \<^verbatim>\<open>set\<close> returned.\<close>

definition ReactiveVal_call :: "nat \<Rightarrow> pyobj list \<Rightarrow> world \<Rightarrow> (exn + pyobj) \<times> world" where
  "ReactiveVal_call v args w =
     (if args \<noteq> [] then
        if length args > 1
        then (Inl (TypeError (ascii ''ReactiveVal can only be called with one argument'')), w)
        else (Inr NoneObj, snd (ReactiveVal_set v (hd args) w))
      else
        let (x, w') = ReactiveVal_get v w in (Inr x, w'))"

text \<open>
  A \<^verbatim>\<open>ReactiveValues\<close> object is its \<^verbatim>\<open>_map\<close>, a dictionary from keys to \<^verbatim>\<open>ReactiveVal\<close>
  objects; its methods take the dictionary and return the updated one.
\<close>

type_synonym reactive_values = "str \<rightharpoonup> nat"

fun ReactiveValues_init :: "(str \<times> pyobj) list \<Rightarrow> reactive_values \<Rightarrow> world \<Rightarrow> reactive_values \<times> world" where
  "ReactiveValues_init [] m w = (m, w)"
| "ReactiveValues_init ((key, value) # kwargs) m w =
     (let (v, w') = ReactiveVal_init value w
      in ReactiveValues_init kwargs (m(key \<mapsto> v)) w')"

definition ReactiveValues_setitem ::
  "reactive_values \<Rightarrow> str \<Rightarrow> pyobj \<Rightarrow> world \<Rightarrow> reactive_values \<times> world" where
  "ReactiveValues_setitem m key value w =
     (case m key of
        Some v \<Rightarrow> (m, snd (ReactiveVal_call v [value] w))
      | None \<Rightarrow> let (v, w') = ReactiveVal_init value w in (m(key \<mapsto> v), w'))"

definition ReactiveValues_getitem ::
  "reactive_values \<Rightarrow> str \<Rightarrow> world \<Rightarrow> (exn + pyobj) \<times> reactive_values \<times> world" where
  "ReactiveValues_getitem m key w =
     (let (m1, w1) =
            (case m key of
               None \<Rightarrow> let (v, w') = ReactiveVal_init NoneObj w in (m(key \<mapsto> v), w')
             | Some _ \<Rightarrow> (m, w))
      in case m1 key of
           Some v \<Rightarrow> let (res, w2) = ReactiveVal_call v [] w1 in (res, m1, w2)
         | None \<Rightarrow> (Inl (KeyError key), m1, w1))"

definition ReactiveValues_delitem :: "reactive_values \<Rightarrow> str \<Rightarrow> exn + reactive_values" where
  "ReactiveValues_delitem m key =
     (case m key of None \<Rightarrow> Inl (KeyError key) | Some _ \<Rightarrow> Inr (m(key := None)))"

subsection \<open>\<^verbatim>\<open>Reactive\<close> and \<^verbatim>\<open>ReactiveAsync\<close>\<close>

text \<open>
  The constructors return the reference to the new object, or the \<^verbatim>\<open>TypeError\<close>; the world
  comes back in both cases. \<^verbatim>\<open>utils.wrap_async\<close> keeps what the function does.
\<close>

definition Reactive_init :: "(nat \<Rightarrow> pyfunc) \<Rightarrow> funcref \<Rightarrow> world \<Rightarrow> (exn + nat) \<times> world" where
  "Reactive_init F func w =
     (if is_coroutine (func_of F func)
      then (Inl (TypeError (ascii ''Reactive requires a non-async function'')), w)
      else
        (Inr (next_reactive w),
         w\<lparr>reactives := (reactives w)(next_reactive w :=
              \<lparr>r_func = func, r_is_async = False, r_dependents = [], r_invalidated = True,
               r_running = False, r_most_recent_ctx_id = - 1, r_ctx = None, r_exec_count = 0,
               r_session = current_session w, r_value = NoneObj, r_error = False\<rparr>),
           next_reactive := Suc (next_reactive w)\<rparr>))"

definition ReactiveAsync_init :: "(nat \<Rightarrow> pyfunc) \<Rightarrow> funcref \<Rightarrow> world \<Rightarrow> (exn + nat) \<times> world" where
  "ReactiveAsync_init F func w =
     (if \<not> is_coroutine (func_of F func)
      then (Inl (TypeError (ascii ''ReactiveAsync requires an async function'')), w)
      else
        case Reactive_init F LambdaNone w of
          (Inl e, w') \<Rightarrow> (Inl e, w')
        | (Inr r, w') \<Rightarrow>
            (Inr r, upd_reactive r (\<lambda>x. x\<lparr>r_is_async := True\<rparr>)
                      (upd_reactive r (\<lambda>x. x\<lparr>r_func := func\<rparr>) w')))"

text \<open>
  \<^verbatim>\<open>raise\<close> of an object that is no exception raises a fresh \<^verbatim>\<open>TypeError\<close> in its place.
\<close>

definition py_raise :: "pyobj \<Rightarrow> world \<Rightarrow> outcome \<times> world" where
  "py_raise v w =
     (if isinstance_BaseException v then (Raise v, w)
      else (Raise (Obj (next_addr w)
                    (Builtin (TypeError (ascii ''exceptions must derive from BaseException'')))),
            w\<lparr>next_addr := Suc (next_addr w)\<rparr>))"

definition Reactive_run_func :: "(nat \<Rightarrow> pyfunc) \<Rightarrow> nat \<Rightarrow> world \<Rightarrow> outcome \<times> world" where
  "Reactive_run_func F r w =
     (let w1 = upd_reactive r (\<lambda>x. x\<lparr>r_error := False\<rparr>) w;
          (res, w2) = body (func_of F (r_func (reactives w1 r))) w1
      in case res of
           Return x \<Rightarrow> (Return NoneObj, upd_reactive r (\<lambda>y. y\<lparr>r_value := x\<rparr>) w2)
         | Raise err \<Rightarrow>
             if isinstance_Exception err
             then (Return NoneObj,
                   upd_reactive r (\<lambda>y. y\<lparr>r_value := err\<rparr>)
                     (upd_reactive r (\<lambda>y. y\<lparr>r_error := True\<rparr>) w2))
             else (Raise err, w2))"

definition Reactive_update_value :: "(nat \<Rightarrow> pyfunc) \<Rightarrow> nat \<Rightarrow> world \<Rightarrow> outcome \<times> world" where
  "Reactive_update_value F r w =
     (let (c, w1) = Context_new w;
          w2 = upd_reactive r (\<lambda>x. x\<lparr>r_ctx := Some c\<rparr>) w1;
          w3 = upd_reactive r (\<lambda>x. x\<lparr>r_most_recent_ctx_id := int c\<rparr>) w2;
          w4 = Context_on_invalidate c (Reactive_on_invalidate_cb r) w3;
          w5 = upd_reactive r (\<lambda>x. x\<lparr>r_exec_count := r_exec_count x + 1\<rparr>) w4;
          w6 = upd_reactive r (\<lambda>x. x\<lparr>r_invalidated := False\<rparr>) w5;
          was_running = r_running (reactives w6 r);
          w7 = upd_reactive r (\<lambda>x. x\<lparr>r_running := True\<rparr>) w6;
          (res, w8) = session_context (r_session (reactives w7 r))
                        (\<lambda>w. let (res, w') = Context_run c (Reactive_run_func F r) w
                             in (res, upd_reactive r (\<lambda>x. x\<lparr>r_running := was_running\<rparr>) w')) w7
      in (res, w8))"

definition Reactive_get_value :: "(nat \<Rightarrow> pyfunc) \<Rightarrow> nat \<Rightarrow> world \<Rightarrow> outcome \<times> world" where
  "Reactive_get_value F r w =
     (let w1 = Dependents_register (ReactiveDependents r) w;
          (res, w2) =
            (if r_invalidated (reactives w1 r) \<or> r_running (reactives w1 r)
             then Reactive_update_value F r w1
             else (Return NoneObj, w1))
      in case res of
           Raise err \<Rightarrow> (Raise err, w2)
         | Return _ \<Rightarrow>
             if r_error (reactives w2 r) then py_raise (r_value (reactives w2 r)) w2
             else (Return (r_value (reactives w2 r)), w2))"

text \<open>\<^verbatim>\<open>Reactive.__call__\<close> runs \<^verbatim>\<open>get_value\<close> to its end and returns what it returns.\<close>

definition Reactive_call :: "(nat \<Rightarrow> pyfunc) \<Rightarrow> nat \<Rightarrow> world \<Rightarrow> outcome \<times> world" where
  "Reactive_call F r w = Reactive_get_value F r w"

subsection \<open>\<^verbatim>\<open>Observer\<close> and \<^verbatim>\<open>ObserverAsync\<close>\<close>

definition Observer_create_context :: "nat \<Rightarrow> world \<Rightarrow> nat \<times> world" where
  "Observer_create_context ob w =
     (let (c, w1) = Context_new w;
          w2 = upd_observer ob (\<lambda>x. x\<lparr>o_ctx := Some c\<rparr>) w1;
          w3 = Context_on_invalidate c (Observer_on_invalidate_cb ob c) w2;
          w4 = Context_on_flush c (Observer_on_flush_cb ob) w3
      in (c, w4))"

text \<open>
  Modelled from the spec: \<^verbatim>\<open>ShinySession.on_ended\<close> registers an end-of-session callback;
  the callback is \<^verbatim>\<open>Observer._on_session_ended_cb\<close> of the observer noted with the session.
\<close>

definition session_register_on_ended :: "nat \<Rightarrow> nat \<Rightarrow> world \<Rightarrow> world" where
  "session_register_on_ended s ob w = w\<lparr>session_on_ended := session_on_ended w @ [(s, ob)]\<rparr>"

definition Observer_init :: "(nat \<Rightarrow> pyfunc) \<Rightarrow> funcref \<Rightarrow> world \<Rightarrow> (exn + nat) \<times> world" where
  "Observer_init F func w =
     (if is_coroutine (func_of F func)
      then (Inl (TypeError (ascii ''Observer requires a non-async function'')), w)
      else
        let ob = next_observer w;
            w1 = w\<lparr>observers := (observers w)(ob :=
                     \<lparr>o_func = func, o_is_async = False, o_invalidate_callbacks = [],
                      o_destroyed = False, o_ctx = None, o_exec_count = 0,
                      o_session = current_session w\<rparr>),
                   next_observer := Suc ob\<rparr>;
            w2 = (case o_session (observers w1 ob) of
                    None \<Rightarrow> w1
                  | Some s \<Rightarrow> session_register_on_ended s ob w1);
            (c, w3) = Observer_create_context ob w2
        in (Inr ob, Context_invalidate c w3))"

definition Observer_run :: "(nat \<Rightarrow> pyfunc) \<Rightarrow> nat \<Rightarrow> world \<Rightarrow> outcome \<times> world" where
  "Observer_run F ob w =
     (let (c, w1) = Observer_create_context ob w;
          w2 = upd_observer ob (\<lambda>x. x\<lparr>o_exec_count := o_exec_count x + 1\<rparr>) w1
      in session_context (o_session (observers w2 ob))
           (Context_run c (body (func_of F (o_func (observers w2 ob))))) w2)"

text \<open>The \<^verbatim>\<open>on_flush_cb\<close> of \<^verbatim>\<open>Observer._create_context\<close>.\<close>

definition Observer_on_flush_cb_run :: "(nat \<Rightarrow> pyfunc) \<Rightarrow> nat \<Rightarrow> world \<Rightarrow> outcome \<times> world" where
  "Observer_on_flush_cb_run F ob w =
     (if \<not> o_destroyed (observers w ob) then Observer_run F ob w else (Return NoneObj, w))"

definition Observer_on_invalidate :: "nat \<Rightarrow> nat \<Rightarrow> world \<Rightarrow> world" where
  "Observer_on_invalidate ob callback w =
     upd_observer ob (\<lambda>x. x\<lparr>o_invalidate_callbacks := o_invalidate_callbacks x @ [callback]\<rparr>) w"

definition Observer_destroy :: "nat \<Rightarrow> world \<Rightarrow> world" where
  "Observer_destroy ob w =
     (let w1 = upd_observer ob (\<lambda>x. x\<lparr>o_destroyed := True\<rparr>) w
      in case o_ctx (observers w1 ob) of
           None \<Rightarrow> w1
         | Some c \<Rightarrow> Context_invalidate c w1)"

definition Observer_on_session_ended_cb :: "nat \<Rightarrow> world \<Rightarrow> world" where
  "Observer_on_session_ended_cb ob w = Observer_destroy ob w"

definition ObserverAsync_init :: "(nat \<Rightarrow> pyfunc) \<Rightarrow> funcref \<Rightarrow> world \<Rightarrow> (exn + nat) \<times> world" where
  "ObserverAsync_init F func w =
     (if \<not> is_coroutine (func_of F func)
      then (Inl (TypeError (ascii ''ObserverAsync requires an async function'')), w)
      else
        case Observer_init F LambdaNone w of
          (Inl e, w') \<Rightarrow> (Inl e, w')
        | (Inr ob, w') \<Rightarrow>
            (Inr ob, upd_observer ob (\<lambda>x. x\<lparr>o_is_async := True\<rparr>)
                       (upd_observer ob (\<lambda>x. x\<lparr>o_func := func\<rparr>) w')))"

subsection \<open>The flush scheduler\<close>

fun run_flush_cb :: "(nat \<Rightarrow> pyfunc) \<Rightarrow> flush_cb \<Rightarrow> world \<Rightarrow> outcome \<times> world" where
  "run_flush_cb F (Observer_on_flush_cb ob) w = Observer_on_flush_cb_run F ob w"

text \<open>
  Modelled from the spec: the flush callbacks of a context run in order, and an error of
  one of them surfaces to the caller of the flush and interrupts the rest.
\<close>

fun run_flush_cbs :: "(nat \<Rightarrow> pyfunc) \<Rightarrow> flush_cb list \<Rightarrow> world \<Rightarrow> outcome \<times> world" where
  "run_flush_cbs F [] w = (Return NoneObj, w)"
| "run_flush_cbs F (cb # cbs) w =
     (case run_flush_cb F cb w of
        (Return _, w') \<Rightarrow> run_flush_cbs F cbs w'
      | (Raise err, w') \<Rightarrow> (Raise err, w'))"

text \<open>
  Modelled from the spec: one turn of the drain loop removes a pending context and runs its
  flush callbacks.
\<close>

definition flush_one :: "(nat \<Rightarrow> pyfunc) \<Rightarrow> nat \<Rightarrow> world \<Rightarrow> outcome \<times> world" where
  "flush_one F c w =
     run_flush_cbs F (ctx_flush_callbacks (contexts w ! c))
       (w\<lparr>pending_flush := removeAll c (pending_flush w)\<rparr>)"

text \<open>
  Modelled from the spec: the pending collection is unordered, so a turn may take any
  pending context; \<open>flush_step\<close> is one turn, whatever it takes and however it ends.
\<close>

inductive flush_step :: "(nat \<Rightarrow> pyfunc) \<Rightarrow> world \<Rightarrow> world \<Rightarrow> bool" for F where
  turn: "c \<in> set (pending_flush w) \<Longrightarrow> c < length (contexts w) \<Longrightarrow>
         flush_one F c w = (res, w') \<Longrightarrow> flush_step F w w'"

text \<open>
  Modelled from the spec: \<^verbatim>\<open>flush()\<close> drains the pending collection until it is empty, with
  no cap on the number of turns; here it takes the oldest pending context first, and
  \<open>None\<close> is a loop that has not ended within the given number of turns.
\<close>

fun flush :: "nat \<Rightarrow> (nat \<Rightarrow> pyfunc) \<Rightarrow> world \<Rightarrow> (outcome \<times> world) option" where
  "flush 0 F w = None"
| "flush (Suc n) F w =
     (case pending_flush w of
        [] \<Rightarrow> Some (Return NoneObj, w)
      | c # _ \<Rightarrow>
          (case flush_one F c w of
             (Return _, w') \<Rightarrow> flush n F w'
           | (Raise err, w') \<Rightarrow> Some (Raise err, w')))"

subsection \<open>Notions for stating the properties\<close>

text \<open>
  What an invalidation may do to a world: it keeps the contexts that exist, only ever sets
  invalidation flags, and leaves the ambient context and session, the stored values, the
  functions, the execution counters and the error, running and destroyed flags alone.
\<close>

definition cascade :: "world \<Rightarrow> world \<Rightarrow> bool" where
  "cascade w w' \<longleftrightarrow>
     length (contexts w') = length (contexts w) \<and>
     (\<forall>c. c < length (contexts w) \<longrightarrow> ctx_invalidated (contexts w ! c) \<longrightarrow>
          ctx_invalidated (contexts w' ! c)) \<and>
     live_contexts w' \<le> live_contexts w \<and>
     current_context w' = current_context w \<and>
     current_session w' = current_session w \<and>
     next_reactive_val w' = next_reactive_val w \<and>
     (\<forall>v. rv_value (reactive_vals w' v) = rv_value (reactive_vals w v)) \<and>
     (\<forall>r. (r_invalidated (reactives w r) \<longrightarrow> r_invalidated (reactives w' r)) \<and>
          r_exec_count (reactives w' r) = r_exec_count (reactives w r) \<and>
          r_error (reactives w' r) = r_error (reactives w r) \<and>
          r_running (reactives w' r) = r_running (reactives w r) \<and>
          r_func (reactives w' r) = r_func (reactives w r)) \<and>
     (\<forall>ob. o_exec_count (observers w' ob) = o_exec_count (observers w ob) \<and>
           o_destroyed (observers w' ob) = o_destroyed (observers w ob))"

text \<open>
  What a nested invalidation has to deliver while fewer than \<open>k\<close> contexts are live: it is
  not cut off, it only invalidates, and it leaves its context invalidated.
\<close>

definition delivers :: "nat \<Rightarrow> (world \<Rightarrow> nat \<Rightarrow> world option) \<Rightarrow> bool" where
  "delivers k nested \<longleftrightarrow>
     (\<forall>w c. live_contexts w < k \<longrightarrow>
        (\<exists>w'. nested w c = Some w' \<and> cascade w w' \<and>
              (c < length (contexts w) \<longrightarrow> ctx_invalidated (contexts w' ! c))))"


text \<open>
  The world in which \<^verbatim>\<open>Reactive.get_value\<close> starts the user function when it recomputes:
  the caller is registered, a fresh context is the reactive's own and the ambient one, the
  execution counter is incremented, the reactive is running, no longer invalidated and its
  error flag is cleared.
\<close>

definition Reactive_func_entry :: "nat \<Rightarrow> world \<Rightarrow> world" where
  "Reactive_func_entry r w =
     (let w1 = Dependents_register (ReactiveDependents r) w;
          (c, w2) = Context_new w1;
          w3 = upd_reactive r (\<lambda>x. x\<lparr>r_most_recent_ctx_id := int c\<rparr>)
                 (upd_reactive r (\<lambda>x. x\<lparr>r_ctx := Some c\<rparr>) w2);
          w4 = Context_on_invalidate c (Reactive_on_invalidate_cb r) w3;
          w5 = upd_reactive r (\<lambda>x. x\<lparr>r_running := True\<rparr>)
                 (upd_reactive r (\<lambda>x. x\<lparr>r_invalidated := False\<rparr>)
                   (upd_reactive r (\<lambda>x. x\<lparr>r_exec_count := r_exec_count x + 1\<rparr>) w4))
      in upd_reactive r (\<lambda>x. x\<lparr>r_error := False\<rparr>)
           (w5\<lparr>current_session := r_session (reactives w5 r), current_context := Some c\<rparr>))"

text \<open>
  The world in which \<^verbatim>\<open>Observer.run\<close> starts the user function: a fresh context is the
  observer's own and the ambient one, and the execution counter is incremented.
\<close>

definition Observer_func_entry :: "nat \<Rightarrow> world \<Rightarrow> world" where
  "Observer_func_entry ob w =
     (let (c, w1) = Observer_create_context ob w;
          w2 = upd_observer ob (\<lambda>x. x\<lparr>o_exec_count := o_exec_count x + 1\<rparr>) w1
      in w2\<lparr>current_session := o_session (observers w2 ob), current_context := Some c\<rparr>)"

text \<open>
  A table of user functions leaves a destroyed observer alone when no function in it
  changes the destroyed flag or the execution counter of that observer: user code reaches
  an observer through \<^verbatim>\<open>destroy\<close> and \<^verbatim>\<open>on_invalidate\<close> and the values it reads and writes.
\<close>

definition leaves_destroyed :: "(nat \<Rightarrow> pyfunc) \<Rightarrow> nat \<Rightarrow> bool" where
  "leaves_destroyed F ob \<longleftrightarrow>
     (\<forall>i w0. o_destroyed (observers w0 ob) \<longrightarrow>
        o_destroyed (observers (snd (body (F i) w0)) ob) \<and>
        o_exec_count (observers (snd (body (F i) w0)) ob) = o_exec_count (observers w0 ob))"

subsection \<open>Concrete worlds and functions\<close>

text \<open>
  An exception object and an integer object; a table of three user functions, of which
  the first raises the exception, the second returns the integer and the third is a
  coroutine function; the same table after the first function has been fixed.
\<close>

definition boom :: pyobj where
  "boom = Obj 7 (UserException (ascii ''boom''))"

definition five :: pyobj where
  "five = Obj 8 (IntV 5)"

definition example_funcs :: "nat \<Rightarrow> pyfunc" where
  "example_funcs i =
     (if i = 0 then \<lparr>is_coroutine = False, body = (\<lambda>w. (Raise boom, w))\<rparr>
      else if i = 1 then \<lparr>is_coroutine = False, body = (\<lambda>w. (Return five, w))\<rparr>
      else \<lparr>is_coroutine = True, body = (\<lambda>w. (Return NoneObj, w))\<rparr>)"

definition example_funcs_fixed :: "nat \<Rightarrow> pyfunc" where
  "example_funcs_fixed i =
     (if i = 0 then \<lparr>is_coroutine = False, body = (\<lambda>w. (Return five, w))\<rparr>
      else example_funcs i)"

text \<open>The world before anything has been created.\<close>

definition empty_world :: world where
  "empty_world =
     \<lparr>contexts = [], current_context = None, pending_flush = [],
      reactive_vals = (\<lambda>_. \<lparr>rv_value = NoneObj, rv_dependents = []\<rparr>),
      next_reactive_val = 0,
      reactives = (\<lambda>_. \<lparr>r_func = LambdaNone, r_is_async = False, r_dependents = [],
        r_invalidated = True, r_running = False, r_most_recent_ctx_id = - 1, r_ctx = None,
        r_exec_count = 0, r_session = None, r_value = NoneObj, r_error = False\<rparr>),
      next_reactive = 0,
      observers = (\<lambda>_. \<lparr>o_func = LambdaNone, o_is_async = False, o_invalidate_callbacks = [],
        o_destroyed = False, o_ctx = None, o_exec_count = 0, o_session = None\<rparr>),
      next_observer = 0, current_session = None, session_on_ended = [], called_back = [],
      next_addr = 100\<rparr>"

text \<open>
  A world in which context 0 is running, and the same world after that context has read
  the reactive value 0, which holds the integer object at address 1.
\<close>

definition reading_world :: world where
  "reading_world =
     empty_world\<lparr>contexts := [\<lparr>ctx_invalidated = False, ctx_invalidate_callbacks = [],
                                 ctx_flush_callbacks = []\<rparr>],
                  current_context := Some 0\<rparr>"

definition read_world :: world where
  "read_world =
     snd (ReactiveVal_get 0 (snd (ReactiveVal_init (Obj 1 (IntV 4)) reading_world)))"

definition no_values :: reactive_values where
  "no_values = Map.empty"

text \<open>
  A reactive on the function that returns, before and after its first read; a reactive on
  the function that raises, before and after its first read.
\<close>

definition fresh_reactive_world :: world where
  "fresh_reactive_world = snd (Reactive_init example_funcs (UserFunc 1) empty_world)"

definition computed_world :: world where
  "computed_world = snd (Reactive_get_value example_funcs 0 fresh_reactive_world)"

definition failing_reactive_world :: world where
  "failing_reactive_world = snd (Reactive_init example_funcs (UserFunc 0) empty_world)"

definition failed_world :: world where
  "failed_world = snd (Reactive_get_value example_funcs 0 failing_reactive_world)"

text \<open>
  An observer on the function that returns, after its construction and after the flush
  turn that runs it for the first time.
\<close>

definition pending_observer_world :: world where
  "pending_observer_world = snd (Observer_init example_funcs (UserFunc 1) empty_world)"

definition observing_world :: world where
  "observing_world = snd (flush_one example_funcs 0 pending_observer_world)"

section \<open>Properties of the identifier namespaces\<close>

subsection \<open>What the pattern accepts\<close>

lemma plus_rems_iff:
  "t \<in> set (plus_rems U k s) \<longleftrightarrow> (\<exists>w. w \<noteq> [] \<and> list_all (cls_match U k) w \<and> s = w @ t)"
proof (induction s)
  case Nil
  then show ?case by simp
next
  case (Cons c cs)
  show ?case
  proof (cases "cls_match U k c")
    case False
    then show ?thesis by (auto simp: Cons_eq_append_conv)
  next
    case True
    show ?thesis
    proof
      assume "t \<in> set (plus_rems U k (c # cs))"
      with True have "t \<in> set (plus_rems U k cs) \<or> t = cs" by auto
      then show "\<exists>w. w \<noteq> [] \<and> list_all (cls_match U k) w \<and> c # cs = w @ t"
      proof
        assume "t \<in> set (plus_rems U k cs)"
        with Cons.IH obtain w where "w \<noteq> []" "list_all (cls_match U k) w" "cs = w @ t" by blast
        with True have "c # w \<noteq> [] \<and> list_all (cls_match U k) (c # w) \<and> c # cs = (c # w) @ t" by simp
        then show ?thesis by blast
      next
        assume "t = cs"
        with True have "[c] \<noteq> [] \<and> list_all (cls_match U k) [c] \<and> c # cs = [c] @ t" by simp
        then show ?thesis by blast
      qed
    next
      assume "\<exists>w. w \<noteq> [] \<and> list_all (cls_match U k) w \<and> c # cs = w @ t"
      then obtain w where w: "w \<noteq> []" "list_all (cls_match U k) w" "c # cs = w @ t" by blast
      then obtain w' where w': "w = c # w'" "cs = w' @ t" by (cases w) auto
      show "t \<in> set (plus_rems U k (c # cs))"
      proof (cases "w' = []")
        case True
        with w' \<open>cls_match U k c\<close> show ?thesis by simp
      next
        case False
        with w w' Cons.IH have "t \<in> set (plus_rems U k cs)" by auto
        with \<open>cls_match U k c\<close> show ?thesis by simp
      qed
    qed
  qed
qed

lemma dot_not_word: "\<not> uni_word U 46"
  by (simp add: uni_word_def uni_alnum_def ascii_alnum_def)

lemma newline_not_word: "\<not> uni_word U 10"
  by (simp add: uni_word_def uni_alnum_def ascii_alnum_def)

lemma re_match_valid_id:
  "re_match U re_valid_id s \<longleftrightarrow>
     (\<exists>t \<in> set (plus_rems U WordCls (strip_dot s)). t = [] \<or> t = [10])"
proof (cases s)
  case Nil
  then show ?thesis by (simp add: re_match_def re_valid_id_def strip_dot_def)
next
  case (Cons c cs)
  show ?thesis
  proof (cases "c = 46")
    case True
    with Cons dot_not_word[of U] show ?thesis
      by (auto simp: re_match_def re_valid_id_def strip_dot_def)
  next
    case False
    with Cons show ?thesis
      by (auto simp: re_match_def re_valid_id_def strip_dot_def)
  qed
qed

lemma re_match_valid_id_shape:
  "re_match U re_valid_id s \<longleftrightarrow>
     (\<exists>w. w \<noteq> [] \<and> list_all (uni_word U) w \<and> (strip_dot s = w \<or> strip_dot s = w @ [10]))"
proof -
  have "re_match U re_valid_id s \<longleftrightarrow>
        [] \<in> set (plus_rems U WordCls (strip_dot s)) \<or> [10] \<in> set (plus_rems U WordCls (strip_dot s))"
    unfolding re_match_valid_id by blast
  also have "\<dots> \<longleftrightarrow> (\<exists>w. w \<noteq> [] \<and> list_all (uni_word U) w \<and> (strip_dot s = w \<or> strip_dot s = w @ [10]))"
    unfolding plus_rems_iff by (simp add: list_all_iff) blast
  finally show ?thesis .
qed

lemma strip_dot_last: "strip_dot s \<noteq> [] \<Longrightarrow> last (strip_dot s) = last s"
  by (cases s) (auto simp: strip_dot_def)

lemma re_match_no_newline:
  assumes "s = [] \<or> last s \<noteq> 10"
  shows "re_match U re_valid_id s \<longleftrightarrow> word_valid_id U s"
proof -
  have "strip_dot s \<noteq> w @ [10]" for w
  proof
    assume e: "strip_dot s = w @ [10]"
    then have "strip_dot s \<noteq> []" by simp
    from strip_dot_last[OF this] e have "last s = 10" by simp
    moreover from e have "s \<noteq> []" by (auto simp: strip_dot_def)
    ultimately show False using assms by simp
  qed
  then show ?thesis
    unfolding re_match_valid_id_shape word_valid_id_def by auto
qed

lemma ascii_word_uni_word: "ascii_word c \<Longrightarrow> uni_word U c"
  by (auto simp: ascii_word_def uni_word_def uni_alnum_def ascii_alnum_def)

lemma spec_valid_id_word_valid_id: "spec_valid_id s \<Longrightarrow> word_valid_id U s"
  by (auto simp: spec_valid_id_def word_valid_id_def list_all_iff ascii_word_uni_word)

lemma spec_valid_id_re_match:
  assumes "spec_valid_id s"
  shows "re_match U re_valid_id s"
proof -
  from assms have "word_valid_id U s" by (rule spec_valid_id_word_valid_id)
  then have "strip_dot s \<noteq> [] \<and> list_all (uni_word U) (strip_dot s) \<and>
             (strip_dot s = strip_dot s \<or> strip_dot s = strip_dot s @ [10])"
    by (simp add: word_valid_id_def)
  then show ?thesis unfolding re_match_valid_id_shape by blast
qed

subsection \<open>Identifier validation\<close>

text \<open>
  C8, as stated: validation succeeds exactly on the strings of \<^verbatim>\<open>^\.?[A-Za-z0-9_]+$\<close>.
  The code accepts more: \<^verbatim>\<open>\w\<close> is the Unicode word class, so the one-letter identifier
  U+00E9 (e with acute accent) passes validation although it is outside the ASCII pattern.
\<close>

theorem validate_id_ascii_only_counterexample:
  "validate_id greek_alnum [233] = Inr () \<and> \<not> spec_valid_id [233]"
  by (simp add: validate_id_def re_match_def re_valid_id_def uni_word_def uni_alnum_def
      latin1_alnum_def spec_valid_id_def strip_dot_def ascii_word_def ascii_alnum_def)

text \<open>
  C8, amended: for every string that does not end in a newline, validation succeeds if and
  only if the string is an optional leading dot followed by one or more word characters of
  \<^verbatim>\<open>\w\<close> (Unicode letters and digits, or the underscore); every string of the ASCII pattern
  is accepted; and a rejected string gets the \<^verbatim>\<open>ValueError\<close> whose message quotes it.
\<close>

theorem validate_id_word_pattern:
  assumes "s = [] \<or> last s \<noteq> 10"
  shows "(validate_id U s = Inr () \<longleftrightarrow> word_valid_id U s) \<and>
         (spec_valid_id s \<longrightarrow> validate_id U s = Inr ()) \<and>
         (\<not> word_valid_id U s \<longrightarrow>
            validate_id U s =
              Inl (ValueError (ascii ''The string '' @ [39] @ s @ [39] @
                ascii '' is not a valid id; only letters, numbers, and underscore are permitted'')))"
  using re_match_no_newline[OF assms, of U] spec_valid_id_re_match[of s U]
  by (auto simp: validate_id_def invalid_id_message_def)

theorem validate_id_word_pattern_witness:
  "(ascii ''.x_1'' = [] \<or> last (ascii ''.x_1'') \<noteq> 10) \<and>
   spec_valid_id (ascii ''.x_1'') \<and>
   validate_id greek_alnum (ascii ''.x_1'') = Inr () \<and>
   (ascii ''a-b'' = [] \<or> last (ascii ''a-b'') \<noteq> 10) \<and>
   \<not> word_valid_id greek_alnum (ascii ''a-b'') \<and>
   validate_id greek_alnum (ascii ''a-b'') =
     Inl (ValueError (ascii ''The string '' @ [39] @ ascii ''a-b'' @ [39] @
       ascii '' is not a valid id; only letters, numbers, and underscore are permitted''))"
proof -
  have h1: "ascii ''.x_1'' = [] \<or> last (ascii ''.x_1'') \<noteq> 10"
    by (simp add: ascii_def)
  have h2: "ascii ''a-b'' = [] \<or> last (ascii ''a-b'') \<noteq> 10"
    by (simp add: ascii_def)
  have v: "spec_valid_id (ascii ''.x_1'')"
    by (simp add: spec_valid_id_def strip_dot_def ascii_word_def ascii_alnum_def ascii_def)
  have n: "\<not> word_valid_id greek_alnum (ascii ''a-b'')"
    by (simp add: word_valid_id_def strip_dot_def uni_word_def uni_alnum_def ascii_alnum_def
        ascii_def)
  from validate_id_word_pattern[OF h1, of greek_alnum] v
  have a: "validate_id greek_alnum (ascii ''.x_1'') = Inr ()" by blast
  from validate_id_word_pattern[OF h2, of greek_alnum] n
  have b: "validate_id greek_alnum (ascii ''a-b'') =
     Inl (ValueError (ascii ''The string '' @ [39] @ ascii ''a-b'' @ [39] @
       ascii '' is not a valid id; only letters, numbers, and underscore are permitted''))"
    by blast
  from h1 h2 v n a b show ?thesis by blast
qed

subsection \<open>Resolving an id against the current namespace\<close>

text \<open>
  C10: an id that is already a \<^verbatim>\<open>ResolvedId\<close> is returned as it is, whatever its text (it is
  not validated again); a plain string is validated, the validation error is the result if
  it is malformed, and otherwise the result is the string itself in the root namespace and
  the namespace, a single \<^verbatim>\<open>-\<close> and the string in any other.
\<close>

theorem resolve_id_cases:
  "resolve_id U ns (ResolvedId r) = Inr (ResolvedId r) \<and>
   (validate_id U s = Inl e \<longrightarrow> resolve_id U ns (PlainStr s) = Inl e) \<and>
   (validate_id U s = Inr () \<longrightarrow> resolve_id U Root (PlainStr s) = Inr (ResolvedId s)) \<and>
   (validate_id U s = Inr () \<and> ns \<noteq> Root \<longrightarrow>
      resolve_id U ns (PlainStr s) = Inr (ResolvedId (ns @ ascii ''-'' @ s)))"
  by (simp add: resolve_id_def Root_def ascii_def)

theorem resolve_id_cases_witness:
  "validate_id greek_alnum (ascii ''a b'') = Inl (ValueError (invalid_id_message (ascii ''a b''))) \<and>
   resolve_id greek_alnum (ascii ''ns'') (ResolvedId (ascii ''a b'')) = Inr (ResolvedId (ascii ''a b'')) \<and>
   resolve_id greek_alnum (ascii ''ns'') (PlainStr (ascii ''a b'')) =
     Inl (ValueError (invalid_id_message (ascii ''a b''))) \<and>
   validate_id greek_alnum (ascii ''x1'') = Inr () \<and>
   resolve_id greek_alnum Root (PlainStr (ascii ''x1'')) = Inr (ResolvedId (ascii ''x1'')) \<and>
   ascii ''ns'' \<noteq> Root \<and>
   resolve_id greek_alnum (ascii ''ns'') (PlainStr (ascii ''x1'')) = Inr (ResolvedId (ascii ''ns-x1''))"
proof -
  have bad: "validate_id greek_alnum (ascii ''a b'') = Inl (ValueError (invalid_id_message (ascii ''a b'')))"
    by (simp add: validate_id_def re_match_def re_valid_id_def uni_word_def uni_alnum_def
        ascii_alnum_def ascii_def)
  have good: "validate_id greek_alnum (ascii ''x1'') = Inr ()"
    by (simp add: validate_id_def re_match_def re_valid_id_def uni_word_def uni_alnum_def
        ascii_alnum_def ascii_def)
  have ns: "ascii ''ns'' \<noteq> Root"
    by (simp add: Root_def ascii_def)
  have cat: "ascii ''ns'' @ ascii ''-'' @ ascii ''x1'' = ascii ''ns-x1''"
    by (simp add: ascii_def)
  from resolve_id_cases[of greek_alnum "ascii ''ns''" "ascii ''a b''" "ascii ''a b''"
      "ValueError (invalid_id_message (ascii ''a b''))"] bad
  have r1: "resolve_id greek_alnum (ascii ''ns'') (ResolvedId (ascii ''a b'')) = Inr (ResolvedId (ascii ''a b''))"
    and r2: "resolve_id greek_alnum (ascii ''ns'') (PlainStr (ascii ''a b'')) =
     Inl (ValueError (invalid_id_message (ascii ''a b'')))"
    by blast+
  from resolve_id_cases[of greek_alnum "ascii ''ns''" "ascii ''x1''" "ascii ''x1''"] good ns cat
  have r3: "resolve_id greek_alnum Root (PlainStr (ascii ''x1'')) = Inr (ResolvedId (ascii ''x1''))"
    and r4: "resolve_id greek_alnum (ascii ''ns'') (PlainStr (ascii ''x1'')) = Inr (ResolvedId (ascii ''ns-x1''))"
    by simp_all
  from bad good ns r1 r2 r3 r4 show ?thesis by blast
qed

section \<open>Properties of the reactive engine\<close>

subsection \<open>Invalidation ends and only ever invalidates\<close>

lemma cascade_refl: "cascade w w"
  by (simp add: cascade_def)

lemma cascade_trans: "cascade w w' \<Longrightarrow> cascade w' w'' \<Longrightarrow> cascade w w''"
  unfolding cascade_def by (intro conjI allI impI; simp)

lemma live_mark_less:
  "c < length xs \<Longrightarrow> \<not> ctx_invalidated (xs ! c) \<Longrightarrow>
   length (filter (\<lambda>x. \<not> ctx_invalidated x) (xs[c := (xs ! c)\<lparr>ctx_invalidated := True\<rparr>]))
     < length (filter (\<lambda>x. \<not> ctx_invalidated x) xs)"
proof (induction xs arbitrary: c)
  case Nil
  then show ?case by simp
next
  case (Cons x xs)
  show ?case
  proof (cases c)
    case 0
    with Cons.prems show ?thesis by simp
  next
    case (Suc k)
    with Cons.prems have "k < length xs" "\<not> ctx_invalidated (xs ! k)" by simp_all
    from Cons.IH[OF this] Suc show ?thesis by simp
  qed
qed

lemma cascade_mark:
  assumes "c < length (contexts w)" "\<not> ctx_invalidated (contexts w ! c)"
  shows "cascade w (upd_context c (\<lambda>x. x\<lparr>ctx_invalidated := True\<rparr>) w)"
    and "live_contexts (upd_context c (\<lambda>x. x\<lparr>ctx_invalidated := True\<rparr>) w) < live_contexts w"
proof -
  show l: "live_contexts (upd_context c (\<lambda>x. x\<lparr>ctx_invalidated := True\<rparr>) w) < live_contexts w"
    using live_mark_less[OF assms] by (simp add: live_contexts_def upd_context_def)
  show "cascade w (upd_context c (\<lambda>x. x\<lparr>ctx_invalidated := True\<rparr>) w)"
    unfolding cascade_def
  proof (intro conjI allI impI)
    show "live_contexts (upd_context c (\<lambda>x. x\<lparr>ctx_invalidated := True\<rparr>) w) \<le> live_contexts w"
      using l by simp
  next
    fix k assume "k < length (contexts w)" "ctx_invalidated (contexts w ! k)"
    then show "ctx_invalidated (contexts (upd_context c (\<lambda>x. x\<lparr>ctx_invalidated := True\<rparr>) w) ! k)"
      by (cases "k = c") (simp_all add: upd_context_def)
  qed (simp_all add: upd_context_def)
qed

lemma live_contexts_upd_reactive [simp]: "live_contexts (upd_reactive r f w) = live_contexts w"
  by (simp add: live_contexts_def upd_reactive_def)

lemma live_contexts_upd_observer [simp]: "live_contexts (upd_observer ob f w) = live_contexts w"
  by (simp add: live_contexts_def upd_observer_def)

lemma live_contexts_upd_val [simp]: "live_contexts (upd_val v f w) = live_contexts w"
  by (simp add: live_contexts_def upd_val_def)

lemma cascade_set_dependents: "cascade w (set_dependents d ds w)"
  by (cases d) (simp_all add: cascade_def upd_val_def upd_reactive_def live_contexts_def)

lemma cascade_reactive_invalidated:
  "cascade w (upd_reactive r (\<lambda>x. x\<lparr>r_invalidated := True\<rparr>) w)"
  by (simp add: cascade_def upd_reactive_def live_contexts_def)

lemma cascade_reactive_value:
  "cascade w (upd_reactive r (\<lambda>x. x\<lparr>r_value := v\<rparr>) w)"
  by (simp add: cascade_def upd_reactive_def live_contexts_def)

lemma cascade_reactive_ctx:
  "cascade w (upd_reactive r (\<lambda>x. x\<lparr>r_ctx := v\<rparr>) w)"
  by (simp add: cascade_def upd_reactive_def live_contexts_def)

lemma cascade_observer_cb:
  "cascade w (Context_add_pending_flush c
     (call_external cbs (upd_observer ob (\<lambda>x. x\<lparr>o_ctx := None\<rparr>) w)))"
  by (simp add: cascade_def upd_observer_def live_contexts_def Context_add_pending_flush_def
      call_external_def)

lemma invalidate_all_delivers:
  assumes "delivers k nested" "live_contexts w < k"
  shows "\<exists>w'. invalidate_all nested cs w = Some w' \<and> cascade w w' \<and>
           (\<forall>c \<in> set cs. c < length (contexts w) \<longrightarrow> ctx_invalidated (contexts w' ! c))"
  using assms(2)
proof (induction cs arbitrary: w)
  case Nil
  then show ?case by (simp add: cascade_refl)
next
  case (Cons c cs)
  from assms(1) Cons.prems obtain w1 where w1: "nested w c = Some w1" "cascade w w1"
    "c < length (contexts w) \<longrightarrow> ctx_invalidated (contexts w1 ! c)"
    unfolding delivers_def by blast
  from w1(2) Cons.prems have "live_contexts w1 < k" by (simp add: cascade_def)
  from Cons.IH[OF this] obtain w' where w': "invalidate_all nested cs w1 = Some w'"
    "cascade w1 w'"
    "\<forall>x \<in> set cs. x < length (contexts w1) \<longrightarrow> ctx_invalidated (contexts w' ! x)"
    by blast
  have len: "length (contexts w1) = length (contexts w)" using w1(2) by (simp add: cascade_def)
  have "c < length (contexts w) \<longrightarrow> ctx_invalidated (contexts w' ! c)"
    using w1(3) w'(2) len by (simp add: cascade_def)
  with w1 w' len show ?case
    by (auto intro: cascade_trans)
qed

lemma Dependents_invalidate_with_delivers:
  assumes "delivers k nested" "live_contexts w < k"
  shows "\<exists>w'. Dependents_invalidate_with nested d w = Some w' \<and> cascade w w' \<and>
           get_dependents w' d = [] \<and>
           (\<forall>c \<in> set (get_dependents w d). c < length (contexts w) \<longrightarrow>
              ctx_invalidated (contexts w' ! c))"
proof -
  from invalidate_all_delivers[OF assms, of "get_dependents w d"]
  obtain w1 where w1: "invalidate_all nested (get_dependents w d) w = Some w1" "cascade w w1"
    "\<forall>c \<in> set (get_dependents w d). c < length (contexts w) \<longrightarrow> ctx_invalidated (contexts w1 ! c)"
    by blast
  have a: "Dependents_invalidate_with nested d w = Some (set_dependents d [] w1)"
    using w1(1) by (simp add: Dependents_invalidate_with_def)
  have b: "cascade w (set_dependents d [] w1)"
    using w1(2) cascade_set_dependents by (rule cascade_trans)
  have c: "get_dependents (set_dependents d [] w1) d = []"
    by (cases d) (simp_all add: upd_val_def upd_reactive_def)
  have d: "contexts (set_dependents d [] w1) = contexts w1"
    by (cases d) (simp_all add: upd_val_def upd_reactive_def)
  from a b c d w1(3) show ?thesis by simp
qed

lemma run_invalidate_cb_delivers:
  assumes "delivers k nested" "live_contexts w < k"
  shows "\<exists>w'. run_invalidate_cb nested cb w = Some w' \<and> cascade w w' \<and>
           (\<forall>r. cb = Reactive_on_invalidate_cb r \<longrightarrow> r_invalidated (reactives w' r)) \<and>
           (\<forall>ob c. cb = Observer_on_invalidate_cb ob c \<longrightarrow> c \<in> set (pending_flush w'))"
proof (cases cb)
  case (Reactive_on_invalidate_cb r)
  define w1 where "w1 = upd_reactive r (\<lambda>x. x\<lparr>r_invalidated := True\<rparr>) w"
  define w2 where "w2 = upd_reactive r (\<lambda>x. x\<lparr>r_value := NoneObj\<rparr>) w1"
  have c2: "cascade w w2"
    unfolding w2_def w1_def
    using cascade_reactive_invalidated cascade_reactive_value by (rule cascade_trans)
  have i2: "r_invalidated (reactives w2 r)"
    by (simp add: w2_def w1_def upd_reactive_def)
  have "live_contexts w2 < k" using assms(2) by (simp add: w2_def w1_def)
  from Dependents_invalidate_with_delivers[OF assms(1) this, of "ReactiveDependents r"]
  obtain w3 where w3: "Dependents_invalidate_with nested (ReactiveDependents r) w2 = Some w3"
    "cascade w2 w3" by blast
  have r: "run_invalidate_cb nested cb w = Some (upd_reactive r (\<lambda>x. x\<lparr>r_ctx := None\<rparr>) w3)"
    using w3(1) by (simp add: Reactive_on_invalidate_cb w2_def w1_def)
  have c3: "cascade w (upd_reactive r (\<lambda>x. x\<lparr>r_ctx := None\<rparr>) w3)"
    using cascade_trans[OF c2 w3(2)] cascade_reactive_ctx by (rule cascade_trans)
  have "r_invalidated (reactives w3 r)" using i2 w3(2) by (simp add: cascade_def)
  then have "r_invalidated (reactives (upd_reactive r (\<lambda>x. x\<lparr>r_ctx := None\<rparr>) w3) r)"
    by (simp add: upd_reactive_def)
  with r c3 Reactive_on_invalidate_cb show ?thesis by simp
next
  case (Observer_on_invalidate_cb ob c)
  define w1 where "w1 = upd_observer ob (\<lambda>x. x\<lparr>o_ctx := None\<rparr>) w"
  define w' where
    "w' = Context_add_pending_flush c (call_external (o_invalidate_callbacks (observers w1 ob)) w1)"
  have r: "run_invalidate_cb nested cb w = Some w'"
    by (simp add: Observer_on_invalidate_cb w'_def w1_def Let_def)
  have c: "cascade w w'"
    unfolding w'_def w1_def by (rule cascade_observer_cb)
  have p: "c \<in> set (pending_flush w')"
    by (simp add: w'_def Context_add_pending_flush_def)
  from r c p Observer_on_invalidate_cb show ?thesis by simp
qed

lemma run_invalidate_cbs_delivers:
  assumes "delivers k nested" "live_contexts w < k"
  shows "\<exists>w'. run_invalidate_cbs nested cbs w = Some w' \<and> cascade w w' \<and>
           (\<forall>r. Reactive_on_invalidate_cb r \<in> set cbs \<longrightarrow> r_invalidated (reactives w' r))"
  using assms(2)
proof (induction cbs arbitrary: w)
  case Nil
  then show ?case by (simp add: cascade_refl)
next
  case (Cons cb cbs)
  from run_invalidate_cb_delivers[OF assms(1) Cons.prems, of cb]
  obtain w1 where w1: "run_invalidate_cb nested cb w = Some w1" "cascade w w1"
    "\<forall>r. cb = Reactive_on_invalidate_cb r \<longrightarrow> r_invalidated (reactives w1 r)" by blast
  from w1(2) Cons.prems have "live_contexts w1 < k" by (simp add: cascade_def)
  from Cons.IH[OF this] obtain w' where w': "run_invalidate_cbs nested cbs w1 = Some w'"
    "cascade w1 w'"
    "\<forall>r. Reactive_on_invalidate_cb r \<in> set cbs \<longrightarrow> r_invalidated (reactives w' r)" by blast
  have "\<forall>r. cb = Reactive_on_invalidate_cb r \<longrightarrow> r_invalidated (reactives w' r)"
    using w1(3) w'(2) by (simp add: cascade_def)
  with w1 w' show ?case by (auto intro: cascade_trans)
qed

lemma Context_invalidate_depth_step:
  assumes "delivers n (Context_invalidate_depth n)" "live_contexts w < Suc n"
  shows "\<exists>w'. Context_invalidate_depth (Suc n) w c = Some w' \<and> cascade w w' \<and>
           (c < length (contexts w) \<longrightarrow> ctx_invalidated (contexts w' ! c)) \<and>
           (c < length (contexts w) \<longrightarrow> \<not> ctx_invalidated (contexts w ! c) \<longrightarrow>
              (\<forall>r. Reactive_on_invalidate_cb r \<in> set (ctx_invalidate_callbacks (contexts w ! c)) \<longrightarrow>
                 r_invalidated (reactives w' r)))"
proof (cases "c \<ge> length (contexts w) \<or> ctx_invalidated (contexts w ! c)")
  case True
  then show ?thesis by (auto simp: cascade_refl)
next
  case False
  then have c: "c < length (contexts w)" "\<not> ctx_invalidated (contexts w ! c)" by simp_all
  define w1 where "w1 = upd_context c (\<lambda>x. x\<lparr>ctx_invalidated := True\<rparr>) w"
  have m: "cascade w w1" "live_contexts w1 < live_contexts w"
    unfolding w1_def using cascade_mark[OF c] by simp_all
  then have "live_contexts w1 < n" using assms(2) by simp
  from run_invalidate_cbs_delivers[OF assms(1) this,
      of "ctx_invalidate_callbacks (contexts w ! c)"]
  obtain w' where w': "run_invalidate_cbs (Context_invalidate_depth n)
      (ctx_invalidate_callbacks (contexts w ! c)) w1 = Some w'" "cascade w1 w'"
    "\<forall>r. Reactive_on_invalidate_cb r \<in> set (ctx_invalidate_callbacks (contexts w ! c)) \<longrightarrow>
       r_invalidated (reactives w' r)" by blast
  have r: "Context_invalidate_depth (Suc n) w c = Some w'"
    using False w'(1) by (simp add: w1_def)
  have "ctx_invalidated (contexts w1 ! c)" using c by (simp add: w1_def upd_context_def)
  moreover have "c < length (contexts w1)" using c by (simp add: w1_def upd_context_def)
  ultimately have "ctx_invalidated (contexts w' ! c)" using w'(2) by (simp add: cascade_def)
  with r cascade_trans[OF m(1) w'(2)] w'(3) show ?thesis by simp
qed

lemma Context_invalidate_depth_delivers: "delivers n (Context_invalidate_depth n)"
proof (induction n)
  case 0
  show ?case by (simp add: delivers_def)
next
  case (Suc n)
  show ?case
    unfolding delivers_def
  proof (intro allI impI)
    fix w c assume "live_contexts w < Suc n"
    from Context_invalidate_depth_step[OF Suc this, of c]
    show "\<exists>w'. Context_invalidate_depth (Suc n) w c = Some w' \<and> cascade w w' \<and>
            (c < length (contexts w) \<longrightarrow> ctx_invalidated (contexts w' ! c))"
      by blast
  qed
qed

text \<open>With more live contexts than the depth allowed nothing is cut off.\<close>

lemma Context_invalidate_depth_enough:
  "live_contexts w < n \<Longrightarrow> Context_invalidate_depth n w c \<noteq> None"
proof -
  assume "live_contexts w < n"
  with Context_invalidate_depth_delivers[of n]
  obtain w' where "Context_invalidate_depth n w c = Some w'"
    unfolding delivers_def by blast
  then show ?thesis by simp
qed

lemma Context_invalidate_cascade:
  "cascade w (Context_invalidate c w) \<and>
   (c < length (contexts w) \<longrightarrow> ctx_invalidated (contexts (Context_invalidate c w) ! c)) \<and>
   (c < length (contexts w) \<longrightarrow> \<not> ctx_invalidated (contexts w ! c) \<longrightarrow>
      (\<forall>r. Reactive_on_invalidate_cb r \<in> set (ctx_invalidate_callbacks (contexts w ! c)) \<longrightarrow>
         r_invalidated (reactives (Context_invalidate c w) r)))"
proof -
  have "live_contexts w < Suc (live_contexts w)" by simp
  from Context_invalidate_depth_step[OF Context_invalidate_depth_delivers this, of c]
  show ?thesis by (auto simp: Context_invalidate_def finished_def)
qed

lemma Dependents_invalidate_cascade:
  "Dependents_invalidate_with (Context_invalidate_depth (Suc (live_contexts w))) d w \<noteq> None \<and>
   cascade w (Dependents_invalidate d w) \<and>
   get_dependents (Dependents_invalidate d w) d = [] \<and>
   (\<forall>c \<in> set (get_dependents w d). c < length (contexts w) \<longrightarrow>
      ctx_invalidated (contexts (Dependents_invalidate d w) ! c))"
proof -
  have "live_contexts w < Suc (live_contexts w)" by simp
  from Dependents_invalidate_with_delivers[OF Context_invalidate_depth_delivers this, of d]
  show ?thesis by (auto simp: Dependents_invalidate_def finished_def)
qed

subsection \<open>Reading a reactive\<close>

lemma Reactive_get_value_cached:
  assumes "\<not> r_invalidated (reactives w r)" "\<not> r_running (reactives w r)"
  shows "Reactive_get_value F r w =
     (if r_error (reactives w r)
      then py_raise (r_value (reactives w r)) (Dependents_register (ReactiveDependents r) w)
      else (Return (r_value (reactives w r)), Dependents_register (ReactiveDependents r) w))"
  using assms
  by (simp add: Reactive_get_value_def Dependents_register_def upd_reactive_def Let_def
      split: option.splits)

lemma Context_on_invalidate_live:
  "c < length (contexts w) \<Longrightarrow> \<not> ctx_invalidated (contexts w ! c) \<Longrightarrow>
   Context_on_invalidate c cb w =
     upd_context c (\<lambda>x. x\<lparr>ctx_invalidate_callbacks := ctx_invalidate_callbacks x @ [cb]\<rparr>) w"
  by (simp add: Context_on_invalidate_def)

lemma Reactive_update_value_entry:
  "Reactive_update_value F r w =
     (let c = length (contexts w);
          w5 = upd_reactive r (\<lambda>x. x\<lparr>r_running := True\<rparr>)
                 (upd_reactive r (\<lambda>x. x\<lparr>r_invalidated := False\<rparr>)
                   (upd_reactive r (\<lambda>x. x\<lparr>r_exec_count := r_exec_count x + 1\<rparr>)
                     (Context_on_invalidate c (Reactive_on_invalidate_cb r)
                       (upd_reactive r (\<lambda>x. x\<lparr>r_most_recent_ctx_id := int c\<rparr>)
                         (upd_reactive r (\<lambda>x. x\<lparr>r_ctx := Some c\<rparr>) (snd (Context_new w)))))));
          (out, wb) = body (func_of F (r_func (reactives w r)))
             (upd_reactive r (\<lambda>x. x\<lparr>r_error := False\<rparr>)
                (w5\<lparr>current_session := r_session (reactives w5 r), current_context := Some c\<rparr>));
          fin = (\<lambda>w'. (upd_reactive r (\<lambda>y. y\<lparr>r_running := r_running (reactives w r)\<rparr>)
                          (w'\<lparr>current_context := current_context w\<rparr>))
                        \<lparr>current_session := current_session w\<rparr>)
      in case out of
           Return x \<Rightarrow> (Return NoneObj, fin (upd_reactive r (\<lambda>y. y\<lparr>r_value := x\<rparr>) wb))
         | Raise err \<Rightarrow>
             if isinstance_Exception err
             then (Return NoneObj, fin (upd_reactive r (\<lambda>y. y\<lparr>r_value := err\<rparr>)
                                         (upd_reactive r (\<lambda>y. y\<lparr>r_error := True\<rparr>) wb)))
             else (Raise err, fin wb))"
  unfolding Reactive_update_value_def Context_new_def
  apply (simp add: Let_def upd_reactive_def Context_on_invalidate_live upd_context_def)
  apply (simp add: session_context_def Context_run_def Reactive_run_func_def Let_def upd_reactive_def
      split: prod.splits outcome.splits)
  done

lemma Dependents_register_reactive [simp]:
  "contexts (Dependents_register d w) = contexts w"
  "current_context (Dependents_register d w) = current_context w"
  "current_session (Dependents_register d w) = current_session w"
  "r_invalidated (reactives (Dependents_register d w) r) = r_invalidated (reactives w r)"
  "r_running (reactives (Dependents_register d w) r) = r_running (reactives w r)"
  "r_func (reactives (Dependents_register d w) r) = r_func (reactives w r)"
  "r_error (reactives (Dependents_register d w) r) = r_error (reactives w r)"
  "r_value (reactives (Dependents_register d w) r) = r_value (reactives w r)"
  "r_exec_count (reactives (Dependents_register d w) r) = r_exec_count (reactives w r)"
  by (cases d; simp add: Dependents_register_def upd_reactive_def upd_val_def split: option.splits)+

lemma Reactive_get_value_recompute:
  assumes "r_invalidated (reactives w r) \<or> r_running (reactives w r)"
    and "body (func_of F (r_func (reactives w r))) (Reactive_func_entry r w) = (out, wb)"
  shows "Reactive_get_value F r w =
     (let fin = (\<lambda>w'. (upd_reactive r (\<lambda>y. y\<lparr>r_running := r_running (reactives w r)\<rparr>)
                          (w'\<lparr>current_context := current_context w\<rparr>))
                        \<lparr>current_session := current_session w\<rparr>)
      in case out of
        Return x \<Rightarrow>
          if r_error (reactives wb r) then py_raise x (fin (upd_reactive r (\<lambda>y. y\<lparr>r_value := x\<rparr>) wb))
          else (Return x, fin (upd_reactive r (\<lambda>y. y\<lparr>r_value := x\<rparr>) wb))
      | Raise err \<Rightarrow>
          if isinstance_Exception err
          then py_raise err (fin (upd_reactive r (\<lambda>y. y\<lparr>r_value := err\<rparr>)
                                   (upd_reactive r (\<lambda>y. y\<lparr>r_error := True\<rparr>) wb)))
          else (Raise err, fin wb))"
proof -
  define w1 where "w1 = Dependents_register (ReactiveDependents r) w"
  have e: "Reactive_func_entry r w =
     upd_reactive r (\<lambda>x. x\<lparr>r_error := False\<rparr>)
       ((upd_reactive r (\<lambda>x. x\<lparr>r_running := True\<rparr>)
          (upd_reactive r (\<lambda>x. x\<lparr>r_invalidated := False\<rparr>)
            (upd_reactive r (\<lambda>x. x\<lparr>r_exec_count := r_exec_count x + 1\<rparr>)
              (Context_on_invalidate (length (contexts w1)) (Reactive_on_invalidate_cb r)
                (upd_reactive r (\<lambda>x. x\<lparr>r_most_recent_ctx_id := int (length (contexts w1))\<rparr>)
                  (upd_reactive r (\<lambda>x. x\<lparr>r_ctx := Some (length (contexts w1))\<rparr>)
                    (snd (Context_new w1))))))))
        \<lparr>current_session := r_session (reactives
            (upd_reactive r (\<lambda>x. x\<lparr>r_running := True\<rparr>)
          (upd_reactive r (\<lambda>x. x\<lparr>r_invalidated := False\<rparr>)
            (upd_reactive r (\<lambda>x. x\<lparr>r_exec_count := r_exec_count x + 1\<rparr>)
              (Context_on_invalidate (length (contexts w1)) (Reactive_on_invalidate_cb r)
                (upd_reactive r (\<lambda>x. x\<lparr>r_most_recent_ctx_id := int (length (contexts w1))\<rparr>)
                  (upd_reactive r (\<lambda>x. x\<lparr>r_ctx := Some (length (contexts w1))\<rparr>)
                    (snd (Context_new w1)))))))) r),
          current_context := Some (length (contexts w1))\<rparr>)"
    by (simp add: Reactive_func_entry_def w1_def Context_new_def Let_def)
  have b: "body (func_of F (r_func (reactives w1 r))) (Reactive_func_entry r w) = (out, wb)"
    using assms(2) by (simp add: w1_def)
  have u: "Reactive_update_value F r w1 =
     (let fin = (\<lambda>w'. (upd_reactive r (\<lambda>y. y\<lparr>r_running := r_running (reactives w r)\<rparr>)
                          (w'\<lparr>current_context := current_context w\<rparr>))
                        \<lparr>current_session := current_session w\<rparr>)
      in case out of
           Return x \<Rightarrow> (Return NoneObj, fin (upd_reactive r (\<lambda>y. y\<lparr>r_value := x\<rparr>) wb))
         | Raise err \<Rightarrow>
             if isinstance_Exception err
             then (Return NoneObj, fin (upd_reactive r (\<lambda>y. y\<lparr>r_value := err\<rparr>)
                                         (upd_reactive r (\<lambda>y. y\<lparr>r_error := True\<rparr>) wb)))
             else (Raise err, fin wb))"
  proof -
    note b' = b[unfolded e]
    have p: "r_running (reactives w1 r) = r_running (reactives w r)"
      "current_context w1 = current_context w" "current_session w1 = current_session w"
      by (simp_all add: w1_def)
    show ?thesis
      by (simp only: Reactive_update_value_entry Let_def b' prod.case p)
  qed
  have g: "Reactive_get_value F r w =
     (case Reactive_update_value F r w1 of
        (Raise err, w2) \<Rightarrow> (Raise err, w2)
      | (Return _, w2) \<Rightarrow>
          if r_error (reactives w2 r) then py_raise (r_value (reactives w2 r)) w2
          else (Return (r_value (reactives w2 r)), w2))"
    using assms(1)
    by (simp add: Reactive_get_value_def w1_def Let_def split: prod.splits outcome.splits)
  show ?thesis
    unfolding g u
    by (simp add: Let_def upd_reactive_def split: outcome.splits)
qed

lemma Reactive_func_entry_facts:
  "r_exec_count (reactives (Reactive_func_entry r w) r) = r_exec_count (reactives w r) + 1"
  "\<not> r_error (reactives (Reactive_func_entry r w) r)"
  "\<not> r_invalidated (reactives (Reactive_func_entry r w) r)"
  "r_running (reactives (Reactive_func_entry r w) r)"
  "current_context (Reactive_func_entry r w) = Some (length (contexts w))"
  by (simp_all add: Reactive_func_entry_def Context_new_def Let_def Context_on_invalidate_live
      upd_reactive_def upd_context_def)

lemma py_raise_exception:
  "isinstance_Exception err \<Longrightarrow> py_raise err w = (Raise err, w)"
  by (cases err rule: isinstance_Exception.cases) (simp_all add: py_raise_def)

lemma py_raise_reactives [simp]: "reactives (snd (py_raise v w)) = reactives w"
  by (simp add: py_raise_def)

lemma Dependents_register_idem:
  "Dependents_register d (Dependents_register d w) = Dependents_register d w"
  by (cases d; cases "current_context w";
      simp add: Dependents_register_def upd_val_def upd_reactive_def)

text \<open>
  C2: when a recompute is due and the user function raises an \<^verbatim>\<open>Exception\<close>, that
  \<^verbatim>\<open>get\<close> raises it; a following \<^verbatim>\<open>get\<close> with no invalidation in between raises the same
  object whatever the function table is, so without calling the function, and leaves the
  execution counter alone, and so does every read after it, since a read of a cached error
  changes nothing but the registered dependents; invalidating the context of the reactive sets its invalidated
  flag; and the next \<^verbatim>\<open>get\<close> of an invalidated reactive starts the function with the error
  flag cleared and returns what the function returns.
\<close>

theorem Reactive_error_sticky:
  assumes "r_invalidated (reactives w r) \<or> r_running (reactives w r)"
    and "body (func_of F (r_func (reactives w r))) (Reactive_func_entry r w) = (Raise err, wb)"
    and "isinstance_Exception err"
  shows "fst (Reactive_get_value F r w) = Raise err \<and>
     (\<not> r_running (reactives w r) \<and> \<not> r_invalidated (reactives wb r) \<longrightarrow>
        Reactive_get_value F' r (snd (Reactive_get_value F r w)) =
          (Raise err, Dependents_register (ReactiveDependents r) (snd (Reactive_get_value F r w))) \<and>
        r_exec_count (reactives (snd (Reactive_get_value F' r (snd (Reactive_get_value F r w)))) r) =
          r_exec_count (reactives (snd (Reactive_get_value F r w)) r)) \<and>
     (c < length (contexts w2) \<and> \<not> ctx_invalidated (contexts w2 ! c) \<and>
      Reactive_on_invalidate_cb r \<in> set (ctx_invalidate_callbacks (contexts w2 ! c)) \<longrightarrow>
        r_invalidated (reactives (Context_invalidate c w2) r)) \<and>
     (r_invalidated (reactives w3 r) \<and>
      body (func_of F' (r_func (reactives w3 r))) (Reactive_func_entry r w3) = (Return x, wb') \<and>
      \<not> r_error (reactives wb' r) \<longrightarrow>
        \<not> r_error (reactives (Reactive_func_entry r w3) r) \<and>
        fst (Reactive_get_value F' r w3) = Return x) \<and>
     r_error (reactives (snd (Reactive_get_value F r w)) r) \<and>
     r_value (reactives (snd (Reactive_get_value F r w)) r) = err \<and>
     (r_error (reactives w4 r) \<and> r_value (reactives w4 r) = err \<and>
      \<not> r_invalidated (reactives w4 r) \<and> \<not> r_running (reactives w4 r) \<longrightarrow>
        Reactive_get_value F' r w4 = (Raise err, Dependents_register (ReactiveDependents r) w4) \<and>
        r_error (reactives (Dependents_register (ReactiveDependents r) w4) r) \<and>
        r_value (reactives (Dependents_register (ReactiveDependents r) w4) r) = err \<and>
        \<not> r_invalidated (reactives (Dependents_register (ReactiveDependents r) w4) r) \<and>
        \<not> r_running (reactives (Dependents_register (ReactiveDependents r) w4) r))"
proof -
  define w1 where "w1 = snd (Reactive_get_value F r w)"
  have g: "Reactive_get_value F r w =
      (Raise err,
       (upd_reactive r (\<lambda>y. y\<lparr>r_running := r_running (reactives w r)\<rparr>)
         ((upd_reactive r (\<lambda>y. y\<lparr>r_value := err\<rparr>) (upd_reactive r (\<lambda>y. y\<lparr>r_error := True\<rparr>) wb))
            \<lparr>current_context := current_context w\<rparr>))\<lparr>current_session := current_session w\<rparr>)"
    using Reactive_get_value_recompute[OF assms(1,2)] assms(3)
    by (simp add: py_raise_exception)
  have first: "fst (Reactive_get_value F r w) = Raise err"
    by (simp add: g)
  have s1: "r_error (reactives w1 r)" "r_value (reactives w1 r) = err"
    "r_running (reactives w1 r) = r_running (reactives w r)"
    "r_invalidated (reactives w1 r) = r_invalidated (reactives wb r)"
    by (simp_all add: w1_def g upd_reactive_def)
  have second: "Reactive_get_value F' r w1 =
          (Raise err, Dependents_register (ReactiveDependents r) w1) \<and>
        r_exec_count (reactives (snd (Reactive_get_value F' r w1)) r) = r_exec_count (reactives w1 r)"
    if "\<not> r_running (reactives w r)" "\<not> r_invalidated (reactives wb r)"
  proof -
    from that s1 have "\<not> r_invalidated (reactives w1 r)" "\<not> r_running (reactives w1 r)" by simp_all
    from Reactive_get_value_cached[OF this, of F'] s1 assms(3)
    show ?thesis by (simp add: py_raise_exception)
  qed
  have third: "r_invalidated (reactives (Context_invalidate c w2) r)"
    if "c < length (contexts w2)" "\<not> ctx_invalidated (contexts w2 ! c)"
      "Reactive_on_invalidate_cb r \<in> set (ctx_invalidate_callbacks (contexts w2 ! c))"
    using Context_invalidate_cascade[of w2 c] that by blast
  have fourth: "\<not> r_error (reactives (Reactive_func_entry r w3) r) \<and>
        fst (Reactive_get_value F' r w3) = Return x"
    if "r_invalidated (reactives w3 r)"
      "body (func_of F' (r_func (reactives w3 r))) (Reactive_func_entry r w3) = (Return x, wb')"
      "\<not> r_error (reactives wb' r)"
  proof -
    from that(1) have "r_invalidated (reactives w3 r) \<or> r_running (reactives w3 r)" by simp
    from Reactive_get_value_recompute[OF this that(2)] that(3)
    show ?thesis by (simp add: Reactive_func_entry_facts Let_def)
  qed
  have fifth: "Reactive_get_value F' r w4 = (Raise err, Dependents_register (ReactiveDependents r) w4) \<and>
        r_error (reactives (Dependents_register (ReactiveDependents r) w4) r) \<and>
        r_value (reactives (Dependents_register (ReactiveDependents r) w4) r) = err \<and>
        \<not> r_invalidated (reactives (Dependents_register (ReactiveDependents r) w4) r) \<and>
        \<not> r_running (reactives (Dependents_register (ReactiveDependents r) w4) r)"
    if "r_error (reactives w4 r)" "r_value (reactives w4 r) = err"
      "\<not> r_invalidated (reactives w4 r)" "\<not> r_running (reactives w4 r)"
    using Reactive_get_value_cached[OF that(3,4), of F'] that assms(3)
    by (simp add: py_raise_exception)
  from first second third fourth fifth s1(1,2) show ?thesis
    unfolding w1_def by blast
qed

text \<open>
  C3: with neither the invalidated nor the running flag set, \<^verbatim>\<open>get\<close> does not depend on the
  user functions at all, leaves the execution counter unchanged, returns the cached value
  and can be repeated with the same result and the same world; with one of the flags set,
  the user function is started with the counter incremented by one, the engine increments
  it no further, and the value the function returns is the value of the read.
\<close>

theorem Reactive_get_value_recomputes_iff_stale:
  "(\<not> r_invalidated (reactives w r) \<and> \<not> r_running (reactives w r) \<longrightarrow>
      Reactive_get_value F' r w = Reactive_get_value F r w \<and>
      r_exec_count (reactives (snd (Reactive_get_value F r w)) r) = r_exec_count (reactives w r) \<and>
      (\<not> r_error (reactives w r) \<longrightarrow>
         fst (Reactive_get_value F r w) = Return (r_value (reactives w r)) \<and>
         Reactive_get_value F r (snd (Reactive_get_value F r w)) = Reactive_get_value F r w)) \<and>
   ((r_invalidated (reactives w r) \<or> r_running (reactives w r)) \<and>
    body (func_of F (r_func (reactives w r))) (Reactive_func_entry r w) = (out, wb) \<longrightarrow>
      r_exec_count (reactives (Reactive_func_entry r w) r) = r_exec_count (reactives w r) + 1 \<and>
      r_exec_count (reactives (snd (Reactive_get_value F r w)) r) = r_exec_count (reactives wb r) \<and>
      (out = Return x \<and> \<not> r_error (reactives wb r) \<longrightarrow>
         fst (Reactive_get_value F r w) = Return x))"
proof -
  have cached: "Reactive_get_value F' r w = Reactive_get_value F r w \<and>
      r_exec_count (reactives (snd (Reactive_get_value F r w)) r) = r_exec_count (reactives w r) \<and>
      (\<not> r_error (reactives w r) \<longrightarrow>
         fst (Reactive_get_value F r w) = Return (r_value (reactives w r)) \<and>
         Reactive_get_value F r (snd (Reactive_get_value F r w)) = Reactive_get_value F r w)"
    if n: "\<not> r_invalidated (reactives w r)" "\<not> r_running (reactives w r)"
  proof -
    note c = Reactive_get_value_cached[OF n]
    have a: "Reactive_get_value F' r w = Reactive_get_value F r w"
      by (simp add: c)
    have b: "r_exec_count (reactives (snd (Reactive_get_value F r w)) r) = r_exec_count (reactives w r)"
      by (simp add: c)
    have d: "fst (Reactive_get_value F r w) = Return (r_value (reactives w r)) \<and>
         Reactive_get_value F r (snd (Reactive_get_value F r w)) = Reactive_get_value F r w"
      if e: "\<not> r_error (reactives w r)"
    proof -
      have g: "Reactive_get_value F r w =
          (Return (r_value (reactives w r)), Dependents_register (ReactiveDependents r) w)"
        using e by (simp add: c)
      have n': "\<not> r_invalidated (reactives (Dependents_register (ReactiveDependents r) w) r)"
        "\<not> r_running (reactives (Dependents_register (ReactiveDependents r) w) r)"
        using n by simp_all
      show ?thesis
        using e by (simp add: g Reactive_get_value_cached[OF n'] Dependents_register_idem)
    qed
    from a b d show ?thesis by blast
  qed
  have recompute: "r_exec_count (reactives (Reactive_func_entry r w) r) = r_exec_count (reactives w r) + 1 \<and>
      r_exec_count (reactives (snd (Reactive_get_value F r w)) r) = r_exec_count (reactives wb r) \<and>
      (out = Return x \<and> \<not> r_error (reactives wb r) \<longrightarrow>
         fst (Reactive_get_value F r w) = Return x)"
    if s: "r_invalidated (reactives w r) \<or> r_running (reactives w r)"
      and b: "body (func_of F (r_func (reactives w r))) (Reactive_func_entry r w) = (out, wb)"
  proof -
    note g = Reactive_get_value_recompute[OF s b]
    have "r_exec_count (reactives (snd (Reactive_get_value F r w)) r) = r_exec_count (reactives wb r)"
      by (cases out) (simp_all add: g Let_def upd_reactive_def)
    moreover have "out = Return x \<and> \<not> r_error (reactives wb r) \<longrightarrow>
         fst (Reactive_get_value F r w) = Return x"
      by (auto simp: g Let_def)
    ultimately show ?thesis by (simp add: Reactive_func_entry_facts)
  qed
  from cached recompute show ?thesis by blast
qed

text \<open>
  C4: a reactive that has just been constructed is invalidated with execution counter 0;
  its first \<^verbatim>\<open>get\<close> starts the user function with the counter at 1, whatever the world is,
  and the engine increments it no further, so the counter is 1 after the read unless the
  function itself changes it.
\<close>

theorem Reactive_first_get_runs_once:
  assumes "\<not> is_coroutine (func_of F f)"
  shows "fst (Reactive_init F f w) = Inr (next_reactive w) \<and>
     r_invalidated (reactives (snd (Reactive_init F f w)) (next_reactive w)) \<and>
     r_exec_count (reactives (snd (Reactive_init F f w)) (next_reactive w)) = 0 \<and>
     (body (func_of F f) (Reactive_func_entry (next_reactive w) (snd (Reactive_init F f w))) = (out, wb) \<longrightarrow>
        r_exec_count (reactives (Reactive_func_entry (next_reactive w) (snd (Reactive_init F f w)))
          (next_reactive w)) = 1 \<and>
        r_exec_count (reactives (snd (Reactive_get_value F (next_reactive w) (snd (Reactive_init F f w))))
          (next_reactive w)) = r_exec_count (reactives wb (next_reactive w)) \<and>
        (r_exec_count (reactives wb (next_reactive w)) = 1 \<longrightarrow>
           r_exec_count (reactives (snd (Reactive_get_value F (next_reactive w) (snd (Reactive_init F f w))))
             (next_reactive w)) = 1))"
proof -
  define r where "r = next_reactive w"
  define w0 where "w0 = snd (Reactive_init F f w)"
  have i: "fst (Reactive_init F f w) = Inr r" "r_invalidated (reactives w0 r)"
    "r_exec_count (reactives w0 r) = 0" "r_func (reactives w0 r) = f"
    using assms by (simp_all add: Reactive_init_def r_def w0_def)
  have run: "r_exec_count (reactives (Reactive_func_entry r w0) r) = 1 \<and>
        r_exec_count (reactives (snd (Reactive_get_value F r w0)) r) = r_exec_count (reactives wb r)"
    if b: "body (func_of F f) (Reactive_func_entry r w0) = (out, wb)"
  proof -
    from i(2) have s: "r_invalidated (reactives w0 r) \<or> r_running (reactives w0 r)" by simp
    from b i(4) have b': "body (func_of F (r_func (reactives w0 r))) (Reactive_func_entry r w0) = (out, wb)"
      by simp
    note g = Reactive_get_value_recompute[OF s b']
    have "r_exec_count (reactives (snd (Reactive_get_value F r w0)) r) = r_exec_count (reactives wb r)"
      by (cases out) (simp_all add: g Let_def upd_reactive_def)
    then show ?thesis by (simp add: Reactive_func_entry_facts i(3))
  qed
  from i run show ?thesis unfolding r_def w0_def by auto
qed

text \<open>
  C7: \<^verbatim>\<open>Reactive\<close> and \<^verbatim>\<open>Observer\<close> given a coroutine function, and \<^verbatim>\<open>ReactiveAsync\<close> and
  \<^verbatim>\<open>ObserverAsync\<close> given a function that is none, end with their \<^verbatim>\<open>TypeError\<close>, and the
  world is the one before the call: nothing has been created.
\<close>

theorem constructors_check_coroutine:
  "(is_coroutine (func_of F f) \<longrightarrow>
      Reactive_init F f w = (Inl (TypeError (ascii ''Reactive requires a non-async function'')), w) \<and>
      Observer_init F f w = (Inl (TypeError (ascii ''Observer requires a non-async function'')), w)) \<and>
   (\<not> is_coroutine (func_of F f) \<longrightarrow>
      ReactiveAsync_init F f w = (Inl (TypeError (ascii ''ReactiveAsync requires an async function'')), w) \<and>
      ObserverAsync_init F f w = (Inl (TypeError (ascii ''ObserverAsync requires an async function'')), w))"
  by (simp add: Reactive_init_def Observer_init_def ReactiveAsync_init_def ObserverAsync_init_def)

subsection \<open>Writes to a reactive value\<close>

lemma Dependents_register_vals [simp]:
  "rv_value (reactive_vals (Dependents_register d w) v) = rv_value (reactive_vals w v)"
  "next_reactive_val (Dependents_register d w) = next_reactive_val w"
  by (cases d; simp add: Dependents_register_def upd_reactive_def upd_val_def split: option.splits)+

lemma ReactiveVal_set_changed:
  assumes d: "\<not> py_is (rv_value (reactive_vals w v)) x"
  shows "(\<exists>w'. Dependents_invalidate_with (Context_invalidate_depth (Suc (live_contexts w)))
               (ValDependents v) (upd_val v (\<lambda>y. y\<lparr>rv_value := x\<rparr>) w) = Some w' \<and>
            ReactiveVal_set v x w = (True, w')) \<and>
      rv_value (reactive_vals (snd (ReactiveVal_set v x w)) v) = x \<and>
      rv_dependents (reactive_vals (snd (ReactiveVal_set v x w)) v) = [] \<and>
      next_reactive_val (snd (ReactiveVal_set v x w)) = next_reactive_val w \<and>
      cascade (upd_val v (\<lambda>y. y\<lparr>rv_value := x\<rparr>) w) (snd (ReactiveVal_set v x w)) \<and>
      (c \<in> set (rv_dependents (reactive_vals w v)) \<and> c < length (contexts w) \<longrightarrow>
         ctx_invalidated (contexts (snd (ReactiveVal_set v x w)) ! c))"
proof -
  define w1 where "w1 = upd_val v (\<lambda>y. y\<lparr>rv_value := x\<rparr>) w"
  have s: "ReactiveVal_set v x w = (True, Dependents_invalidate (ValDependents v) w1)"
    using d by (simp add: ReactiveVal_set_def w1_def Let_def)
  have l: "live_contexts w1 = live_contexts w" by (simp add: w1_def)
  note k = Dependents_invalidate_cascade[of w1 "ValDependents v", unfolded l]
  from k obtain w' where w': "Dependents_invalidate_with
      (Context_invalidate_depth (Suc (live_contexts w))) (ValDependents v) w1 = Some w'"
    by blast
  then have e: "Dependents_invalidate (ValDependents v) w1 = w'"
    by (simp add: Dependents_invalidate_def finished_def l)
  have v1: "rv_value (reactive_vals w1 v) = x"
    "rv_dependents (reactive_vals w1 v) = rv_dependents (reactive_vals w v)"
    "contexts w1 = contexts w" "next_reactive_val w1 = next_reactive_val w"
    by (simp_all add: w1_def upd_val_def)
  from k have "rv_value (reactive_vals (Dependents_invalidate (ValDependents v) w1) v) = x"
    using v1(1) by (simp add: cascade_def)
  moreover from k have "rv_dependents (reactive_vals (Dependents_invalidate (ValDependents v) w1) v) = []"
    by simp
  moreover from k have "c \<in> set (rv_dependents (reactive_vals w v)) \<and> c < length (contexts w) \<longrightarrow>
       ctx_invalidated (contexts (Dependents_invalidate (ValDependents v) w1) ! c)"
    using v1(2,3) by simp
  moreover from k have "next_reactive_val (Dependents_invalidate (ValDependents v) w1) = next_reactive_val w"
    using v1(4) by (simp add: cascade_def)
  moreover from k have "cascade w1 (Dependents_invalidate (ValDependents v) w1)" by simp
  ultimately show ?thesis using w' e unfolding w1_def[symmetric] by (simp add: s)
qed

text \<open>
  C1: \<^verbatim>\<open>set(x)\<close> with the object that is already stored (the same by identity) returns
  \<^verbatim>\<open>False\<close> and leaves the world as it is, so no dependent is notified. With any other
  object, also one that compares equal to the stored one, the invalidation of the
  dependents runs to its end before \<^verbatim>\<open>set\<close> returns \<^verbatim>\<open>True\<close>: the new object is stored, the
  dependent set is empty and every context that was registered is invalidated.
\<close>

theorem ReactiveVal_set_by_identity:
  "(py_is (rv_value (reactive_vals w v)) x \<longrightarrow> ReactiveVal_set v x w = (False, w)) \<and>
   (\<not> py_is (rv_value (reactive_vals w v)) x \<longrightarrow>
      (\<exists>w'. Dependents_invalidate_with (Context_invalidate_depth (Suc (live_contexts w)))
               (ValDependents v) (upd_val v (\<lambda>y. y\<lparr>rv_value := x\<rparr>) w) = Some w' \<and>
            ReactiveVal_set v x w = (True, w')) \<and>
      rv_value (reactive_vals (snd (ReactiveVal_set v x w)) v) = x \<and>
      rv_dependents (reactive_vals (snd (ReactiveVal_set v x w)) v) = [] \<and>
      (c \<in> set (rv_dependents (reactive_vals w v)) \<and> c < length (contexts w) \<longrightarrow>
         ctx_invalidated (contexts (snd (ReactiveVal_set v x w)) ! c)))"
proof -
  have same: "ReactiveVal_set v x w = (False, w)" if "py_is (rv_value (reactive_vals w v)) x"
    using that by (simp add: ReactiveVal_set_def)
  from same ReactiveVal_set_changed[of w v x c] show ?thesis by blast
qed

subsection \<open>Reading a key of \<^verbatim>\<open>ReactiveValues\<close> before it is written\<close>

text \<open>
  C9, amended: reading a key that has never been set, in a running context, does not fail;
  it returns \<^verbatim>\<open>None\<close>, puts a new \<^verbatim>\<open>ReactiveVal\<close> under the key and registers the context with
  it; a later write to the key of any object other than \<^verbatim>\<open>None\<close> keeps that \<^verbatim>\<open>ReactiveVal\<close>,
  creates no other, stores the object and invalidates the context.
\<close>

theorem ReactiveValues_read_then_write:
  assumes "m key = None" "current_context w = Some c" "c < length (contexts w)"
    and "ReactiveValues_getitem m key w = (res, m1, w1)"
    and "ReactiveValues_setitem m1 key x w1 = (m2, w2)"
    and "\<not> py_is NoneObj x"
  shows "res = Inr NoneObj \<and> m1 = m(key \<mapsto> next_reactive_val w) \<and>
     rv_dependents (reactive_vals w1 (next_reactive_val w)) = [c] \<and>
     m2 = m1 \<and> next_reactive_val w2 = next_reactive_val w1 \<and>
     rv_value (reactive_vals w2 (next_reactive_val w)) = x \<and>
     ctx_invalidated (contexts w2 ! c)"
proof -
  define v where "v = next_reactive_val w"
  define w0 where "w0 = snd (ReactiveVal_init NoneObj w)"
  have g: "res = Inr NoneObj" "m1 = m(key \<mapsto> v)"
    "w1 = Dependents_register (ValDependents v) w0"
    using assms(1,4)
    by (auto simp: ReactiveValues_getitem_def ReactiveVal_init_def ReactiveVal_call_def
        ReactiveVal_get_def Let_def v_def w0_def split: prod.splits)
  have w0: "rv_value (reactive_vals w0 v) = NoneObj" "rv_dependents (reactive_vals w0 v) = []"
    "current_context w0 = Some c" "contexts w0 = contexts w"
    using assms(2) by (simp_all add: w0_def v_def ReactiveVal_init_def)
  have w1: "rv_value (reactive_vals w1 v) = NoneObj" "rv_dependents (reactive_vals w1 v) = [c]"
    "contexts w1 = contexts w"
    using w0 by (simp_all add: g(3) Dependents_register_def upd_val_def)
  have s: "(m2, w2) = (m1, snd (ReactiveVal_set v x w1))"
    using assms(5) by (simp add: ReactiveValues_setitem_def g(2) ReactiveVal_call_def)
  from assms(6) w1(1) have d: "\<not> py_is (rv_value (reactive_vals w1 v)) x" by simp
  note k = ReactiveVal_set_changed[OF d, of c]
  from s have m2: "m2 = m1" and w2: "w2 = snd (ReactiveVal_set v x w1)" by simp_all
  from k w1 assms(3) have "ctx_invalidated (contexts w2 ! c)" by (simp add: w2)
  moreover from k have "next_reactive_val w2 = next_reactive_val w1"
    "rv_value (reactive_vals w2 v) = x" by (simp_all add: w2)
  ultimately show ?thesis using g w1 m2 unfolding v_def by simp
qed

subsection \<open>Observers\<close>

lemma Observer_create_context_eq:
  "Observer_create_context ob w =
     (length (contexts w),
      upd_observer ob (\<lambda>x. x\<lparr>o_ctx := Some (length (contexts w))\<rparr>)
        (w\<lparr>contexts := contexts w @
             [\<lparr>ctx_invalidated = False,
               ctx_invalidate_callbacks = [Observer_on_invalidate_cb ob (length (contexts w))],
               ctx_flush_callbacks = [Observer_on_flush_cb ob]\<rparr>]\<rparr>))"
  by (simp add: Observer_create_context_def Context_new_def Let_def Context_on_invalidate_live
      Context_on_flush_def upd_context_def upd_observer_def)

lemma Context_invalidate_observer_only:
  assumes "c < length (contexts w)" "\<not> ctx_invalidated (contexts w ! c)"
    and "ctx_invalidate_callbacks (contexts w ! c) = [Observer_on_invalidate_cb ob c]"
  shows "Context_invalidate c w =
     Context_add_pending_flush c
       (call_external (o_invalidate_callbacks (observers w ob))
         (upd_observer ob (\<lambda>x. x\<lparr>o_ctx := None\<rparr>)
           (upd_context c (\<lambda>x. x\<lparr>ctx_invalidated := True\<rparr>) w)))"
  using assms
  by (simp add: Context_invalidate_def finished_def Let_def upd_observer_def upd_context_def)

lemma Observer_init_eq:
  assumes "\<not> is_coroutine (func_of F f)"
  shows "fst (Observer_init F f w) = Inr (next_observer w)"
    and "contexts (snd (Observer_init F f w)) = contexts w @
          [\<lparr>ctx_invalidated = True,
            ctx_invalidate_callbacks =
              [Observer_on_invalidate_cb (next_observer w) (length (contexts w))],
            ctx_flush_callbacks = [Observer_on_flush_cb (next_observer w)]\<rparr>]"
    and "observers (snd (Observer_init F f w)) = (observers w)(next_observer w :=
          \<lparr>o_func = f, o_is_async = False, o_invalidate_callbacks = [], o_destroyed = False,
           o_ctx = None, o_exec_count = 0, o_session = current_session w\<rparr>)"
    and "pending_flush (snd (Observer_init F f w)) =
          (if length (contexts w) \<in> set (pending_flush w) then pending_flush w
           else pending_flush w @ [length (contexts w)])"
    and "reactive_vals (snd (Observer_init F f w)) = reactive_vals w"
    and "current_context (snd (Observer_init F f w)) = current_context w"
    and "current_session (snd (Observer_init F f w)) = current_session w"
proof -
  define ob where "ob = next_observer w"
  define c where "c = length (contexts w)"
  define w1 where "w1 = w\<lparr>observers := (observers w)(ob :=
        \<lparr>o_func = f, o_is_async = False, o_invalidate_callbacks = [], o_destroyed = False,
         o_ctx = None, o_exec_count = 0, o_session = current_session w\<rparr>),
      next_observer := Suc ob\<rparr>"
  define w2 where "w2 =
    (case current_session w of None \<Rightarrow> w1 | Some s \<Rightarrow> session_register_on_ended s ob w1)"
  define w3 where "w3 = snd (Observer_create_context ob w2)"
  have c2: "contexts w2 = contexts w" "observers w2 = observers w1"
    "pending_flush w2 = pending_flush w" "reactive_vals w2 = reactive_vals w"
    "current_context w2 = current_context w" "current_session w2 = current_session w"
    by (simp_all add: w2_def w1_def session_register_on_ended_def split: option.splits)
  have i: "Observer_init F f w = (Inr ob, Context_invalidate c w3)"
    using assms
    by (simp add: Observer_init_def Let_def Observer_create_context_eq w3_def w2_def w1_def
        ob_def c_def session_register_on_ended_def split: option.splits)
  have w3: "w3 = upd_observer ob (\<lambda>x. x\<lparr>o_ctx := Some c\<rparr>)
        (w2\<lparr>contexts := contexts w @
             [\<lparr>ctx_invalidated = False,
               ctx_invalidate_callbacks = [Observer_on_invalidate_cb ob c],
               ctx_flush_callbacks = [Observer_on_flush_cb ob]\<rparr>]\<rparr>)"
    by (simp add: w3_def Observer_create_context_eq c2 c_def)
  have f: "c < length (contexts w3)" "\<not> ctx_invalidated (contexts w3 ! c)"
    "ctx_invalidate_callbacks (contexts w3 ! c) = [Observer_on_invalidate_cb ob c]"
    by (simp_all add: w3 upd_observer_def c_def)
  note k = Context_invalidate_observer_only[OF f]
  show "fst (Observer_init F f w) = Inr (next_observer w)"
    by (simp add: i ob_def)
  show "contexts (snd (Observer_init F f w)) = contexts w @
          [\<lparr>ctx_invalidated = True,
            ctx_invalidate_callbacks =
              [Observer_on_invalidate_cb (next_observer w) (length (contexts w))],
            ctx_flush_callbacks = [Observer_on_flush_cb (next_observer w)]\<rparr>]"
    unfolding i k ob_def[symmetric] c_def[symmetric]
    by (simp add: w3 Context_add_pending_flush_def call_external_def upd_observer_def
        upd_context_def c_def)
  show "observers (snd (Observer_init F f w)) = (observers w)(next_observer w :=
          \<lparr>o_func = f, o_is_async = False, o_invalidate_callbacks = [], o_destroyed = False,
           o_ctx = None, o_exec_count = 0, o_session = current_session w\<rparr>)"
    unfolding i k ob_def[symmetric] c_def[symmetric]
    by (simp add: w3 c2 w1_def Context_add_pending_flush_def call_external_def upd_observer_def
        upd_context_def)
  show "pending_flush (snd (Observer_init F f w)) =
          (if length (contexts w) \<in> set (pending_flush w) then pending_flush w
           else pending_flush w @ [length (contexts w)])"
    unfolding i k ob_def[symmetric] c_def[symmetric]
    by (simp add: w3 c2 Context_add_pending_flush_def call_external_def upd_observer_def
        upd_context_def)
  show "reactive_vals (snd (Observer_init F f w)) = reactive_vals w"
    unfolding i k
    by (simp add: w3 c2 Context_add_pending_flush_def call_external_def upd_observer_def
        upd_context_def)
  show "current_context (snd (Observer_init F f w)) = current_context w"
    unfolding i k
    by (simp add: w3 c2 Context_add_pending_flush_def call_external_def upd_observer_def
        upd_context_def)
  show "current_session (snd (Observer_init F f w)) = current_session w"
    unfolding i k
    by (simp add: w3 c2 Context_add_pending_flush_def call_external_def upd_observer_def
        upd_context_def)
qed

lemma Observer_func_entry_facts:
  "o_exec_count (observers (Observer_func_entry ob w) ob) = o_exec_count (observers w ob) + 1"
  "o_destroyed (observers (Observer_func_entry ob w) ob') = o_destroyed (observers w ob')"
  "ob' \<noteq> ob \<Longrightarrow>
     o_exec_count (observers (Observer_func_entry ob w) ob') = o_exec_count (observers w ob')"
  "current_context (Observer_func_entry ob w) = Some (length (contexts w))"
  by (simp_all add: Observer_func_entry_def Observer_create_context_eq Let_def upd_observer_def)

lemma Observer_run_entry:
  "Observer_run F ob w =
     (let (out, wb) = body (func_of F (o_func (observers w ob))) (Observer_func_entry ob w)
      in (out, wb\<lparr>current_context := current_context w, current_session := current_session w\<rparr>))"
  by (simp add: Observer_run_def Observer_func_entry_def Observer_create_context_eq Let_def
      session_context_def Context_run_def upd_observer_def split: prod.splits)

lemma ReactiveVal_set_observers:
  "o_exec_count (observers (snd (ReactiveVal_set v x w)) ob) = o_exec_count (observers w ob) \<and>
   o_destroyed (observers (snd (ReactiveVal_set v x w)) ob) = o_destroyed (observers w ob)"
proof (cases "py_is (rv_value (reactive_vals w v)) x")
  case True
  then show ?thesis by (simp add: ReactiveVal_set_def)
next
  case False
  from ReactiveVal_set_changed[OF False, of 0]
  have "cascade (upd_val v (\<lambda>y. y\<lparr>rv_value := x\<rparr>) w) (snd (ReactiveVal_set v x w))" by simp
  then show ?thesis by (simp add: cascade_def upd_val_def)
qed

text \<open>
  C5: the constructor of an observer leaves the execution counter at 0; it has created a
  context, invalidated and pending, whose flush callback is the observer's; it gives the
  same result whatever the bodies of the user functions are, so it has called none; a
  write to a reactive value before the flush still leaves the counter at 0; and the flush
  turn of the pending context is one \<^verbatim>\<open>run\<close>, which starts the function with the counter
  at 1.
\<close>

theorem Observer_first_run_deferred:
  assumes "\<not> is_coroutine (func_of F f)"
    and "Observer_init F f w = (res, w')"
  shows "res = Inr (next_observer w) \<and>
     o_exec_count (observers w' (next_observer w)) = 0 \<and>
     length (contexts w') = Suc (length (contexts w)) \<and>
     ctx_invalidated (contexts w' ! length (contexts w)) \<and>
     ctx_flush_callbacks (contexts w' ! length (contexts w)) =
       [Observer_on_flush_cb (next_observer w)] \<and>
     length (contexts w) \<in> set (pending_flush w') \<and>
     (is_coroutine (func_of F' f) = is_coroutine (func_of F f) \<longrightarrow>
        Observer_init F' f w = Observer_init F f w) \<and>
     o_exec_count (observers (snd (ReactiveVal_set v x w')) (next_observer w)) = 0 \<and>
     snd (flush_one F (length (contexts w)) w') =
       snd (Observer_run F (next_observer w)
             (w'\<lparr>pending_flush := removeAll (length (contexts w)) (pending_flush w')\<rparr>)) \<and>
     o_exec_count (observers (Observer_func_entry (next_observer w)
         (w'\<lparr>pending_flush := removeAll (length (contexts w)) (pending_flush w')\<rparr>))
       (next_observer w)) = 1"
proof -
  define ob where "ob = next_observer w"
  define c where "c = length (contexts w)"
  define w'' where "w'' = w'\<lparr>pending_flush := removeAll c (pending_flush w')\<rparr>"
  note e = Observer_init_eq[OF assms(1), of w, unfolded assms(2) fst_conv snd_conv,
      folded ob_def c_def]
  have r: "res = Inr ob" by (rule e(1))
  have x0: "o_exec_count (observers w' ob) = 0" "\<not> o_destroyed (observers w' ob)"
    by (simp_all add: e(3))
  have cs: "length (contexts w') = Suc c" "ctx_invalidated (contexts w' ! c)"
    "ctx_flush_callbacks (contexts w' ! c) = [Observer_on_flush_cb ob]"
    by (simp_all add: e(2) c_def)
  have p: "c \<in> set (pending_flush w')"
    by (simp add: e(4))
  have ind: "Observer_init F' f w = Observer_init F f w"
    if "is_coroutine (func_of F' f) = is_coroutine (func_of F f)"
    using that by (simp add: Observer_init_def)
  have st: "o_exec_count (observers (snd (ReactiveVal_set v x w')) ob) = 0"
    using ReactiveVal_set_observers[of v x w' ob] x0 by simp
  have nd: "\<not> o_destroyed (observers w'' ob)" "contexts w'' = contexts w'"
    using x0 by (simp_all add: w''_def)
  have fl: "snd (flush_one F c w') = snd (Observer_run F ob w'')"
    using nd cs(3)
    by (simp add: flush_one_def w''_def[symmetric] Observer_on_flush_cb_run_def
        split: prod.splits outcome.splits)
  have en: "o_exec_count (observers (Observer_func_entry ob w'') ob) = 1"
    using x0 by (simp add: Observer_func_entry_facts w''_def)
  from r x0 cs p ind st fl en show ?thesis
    unfolding ob_def c_def w''_def by blast
qed

subsection \<open>Destroyed observers\<close>

lemma body_leaves_destroyed:
  assumes "leaves_destroyed F ob" "o_destroyed (observers w0 ob)"
  shows "o_destroyed (observers (snd (body (func_of F f) w0)) ob) \<and>
         o_exec_count (observers (snd (body (func_of F f) w0)) ob) = o_exec_count (observers w0 ob)"
proof (cases f)
  case (UserFunc i)
  with assms show ?thesis by (simp add: func_of_def leaves_destroyed_def)
next
  case LambdaNone
  with assms show ?thesis by (simp add: func_of_def)
qed

lemma Observer_on_flush_cb_run_destroyed:
  assumes "leaves_destroyed F ob" "o_destroyed (observers w ob)"
  shows "o_destroyed (observers (snd (Observer_on_flush_cb_run F ob' w)) ob) \<and>
         o_exec_count (observers (snd (Observer_on_flush_cb_run F ob' w)) ob) =
           o_exec_count (observers w ob)"
proof (cases "o_destroyed (observers w ob')")
  case True
  with assms(2) show ?thesis by (simp add: Observer_on_flush_cb_run_def)
next
  case False
  with assms(2) have ne: "ob \<noteq> ob'" by auto
  define w0 where "w0 = Observer_func_entry ob' w"
  have d: "o_destroyed (observers w0 ob)" "o_exec_count (observers w0 ob) = o_exec_count (observers w ob)"
    using assms(2) ne by (simp_all add: w0_def Observer_func_entry_facts)
  from body_leaves_destroyed[OF assms(1) d(1), of "o_func (observers w ob')"] d(2)
  show ?thesis
    using False
    by (auto simp: Observer_on_flush_cb_run_def Observer_run_entry w0_def[symmetric]
        split: prod.splits)
qed

lemma run_flush_cbs_destroyed:
  assumes "leaves_destroyed F ob" "o_destroyed (observers w ob)"
  shows "o_destroyed (observers (snd (run_flush_cbs F cbs w)) ob) \<and>
         o_exec_count (observers (snd (run_flush_cbs F cbs w)) ob) = o_exec_count (observers w ob)"
  using assms(2)
proof (induction cbs arbitrary: w)
  case Nil
  then show ?case by simp
next
  case (Cons cb cbs)
  obtain ob' where cb: "cb = Observer_on_flush_cb ob'" by (cases cb)
  obtain out w1 where o: "Observer_on_flush_cb_run F ob' w = (out, w1)" by fastforce
  from Observer_on_flush_cb_run_destroyed[OF assms(1) Cons.prems, of ob'] o
  have d: "o_destroyed (observers w1 ob)" "o_exec_count (observers w1 ob) = o_exec_count (observers w ob)"
    by simp_all
  show ?case
  proof (cases out)
    case (Return y)
    with Cons.IH[OF d(1)] d(2) cb o show ?thesis by simp
  next
    case (Raise e)
    with d cb o show ?thesis by simp
  qed
qed

lemma flush_one_destroyed:
  assumes "leaves_destroyed F ob" "o_destroyed (observers w ob)"
  shows "o_destroyed (observers (snd (flush_one F c w)) ob) \<and>
         o_exec_count (observers (snd (flush_one F c w)) ob) = o_exec_count (observers w ob)"
proof -
  have "o_destroyed (observers (w\<lparr>pending_flush := removeAll c (pending_flush w)\<rparr>) ob)"
    using assms(2) by simp
  from run_flush_cbs_destroyed[OF assms(1) this, of "ctx_flush_callbacks (contexts w ! c)"]
  show ?thesis by (simp add: flush_one_def)
qed

lemma flush_steps_destroyed:
  assumes "leaves_destroyed F ob"
  shows "rtranclp (flush_step F) w w' \<Longrightarrow> o_destroyed (observers w ob) \<Longrightarrow>
         o_destroyed (observers w' ob) \<and> o_exec_count (observers w' ob) = o_exec_count (observers w ob)"
proof (induction rule: rtranclp_induct)
  case base
  then show ?case by simp
next
  case (step y z)
  from step.IH[OF step.prems] have y: "o_destroyed (observers y ob)"
    "o_exec_count (observers y ob) = o_exec_count (observers w ob)" by simp_all
  from step.hyps(2) obtain c res where "flush_one F c y = (res, z)"
    by (auto elim: flush_step.cases)
  with flush_one_destroyed[OF assms y(1), of c] y(2) show ?case by simp
qed

lemma flush_destroyed:
  assumes "leaves_destroyed F ob"
  shows "flush n F w = Some (res, w') \<Longrightarrow> o_destroyed (observers w ob) \<Longrightarrow>
         o_destroyed (observers w' ob) \<and> o_exec_count (observers w' ob) = o_exec_count (observers w ob)"
proof (induction n arbitrary: w)
  case 0
  then show ?case by simp
next
  case (Suc n)
  show ?case
  proof (cases "pending_flush w")
    case Nil
    with Suc.prems show ?thesis by simp
  next
    case (Cons c cs)
    obtain out w1 where o: "flush_one F c w = (out, w1)" by fastforce
    from flush_one_destroyed[OF assms Suc.prems(2), of c] o
    have d: "o_destroyed (observers w1 ob)"
      "o_exec_count (observers w1 ob) = o_exec_count (observers w ob)" by simp_all
    show ?thesis
    proof (cases out)
      case (Return y)
      with Suc.prems(1) Cons o have "flush n F w1 = Some (res, w')" by simp
      from Suc.IH[OF this d(1)] d(2) show ?thesis by simp
    next
      case (Raise e)
      with Suc.prems(1) Cons o d show ?thesis by simp
    qed
  qed
qed

lemma Observer_destroy_facts:
  "o_destroyed (observers (Observer_destroy ob w) ob)"
  "o_exec_count (observers (Observer_destroy ob w) ob') = o_exec_count (observers w ob')"
  "o_ctx (observers w ob) = Some c \<Longrightarrow> c < length (contexts w) \<Longrightarrow>
     ctx_invalidated (contexts (Observer_destroy ob w) ! c)"
proof -
  define w1 where "w1 = upd_observer ob (\<lambda>x. x\<lparr>o_destroyed := True\<rparr>) w"
  have w1: "o_destroyed (observers w1 ob)" "o_exec_count (observers w1 ob') = o_exec_count (observers w ob')"
    "o_ctx (observers w1 ob) = o_ctx (observers w ob)" "contexts w1 = contexts w"
    by (simp_all add: w1_def upd_observer_def)
  have d: "Observer_destroy ob w =
      (case o_ctx (observers w ob) of None \<Rightarrow> w1 | Some c \<Rightarrow> Context_invalidate c w1)"
    by (simp add: Observer_destroy_def Let_def w1_def[symmetric] w1(3))
  show "o_destroyed (observers (Observer_destroy ob w) ob)"
    using w1(1) Context_invalidate_cascade[of w1]
    by (simp add: d cascade_def split: option.splits)
  show "o_exec_count (observers (Observer_destroy ob w) ob') = o_exec_count (observers w ob')"
    using w1(2) Context_invalidate_cascade[of w1]
    by (simp add: d cascade_def split: option.splits)
  show "ctx_invalidated (contexts (Observer_destroy ob w) ! c)"
    if "o_ctx (observers w ob) = Some c" "c < length (contexts w)"
    using that w1(4) Context_invalidate_cascade[of w1 c] by (simp add: d)
qed

text \<open>
  C6: \<^verbatim>\<open>destroy\<close> sets the destroyed flag and invalidates the current context if there is
  one; the flush callback of a destroyed observer returns without running it; and, with
  user functions that leave the destroyed observer alone, no sequence of flush turns and
  no \<^verbatim>\<open>flush\<close> changes the flag or the execution counter again.
\<close>

theorem Observer_destroy_terminal:
  assumes "leaves_destroyed F ob"
  shows "o_destroyed (observers (Observer_destroy ob w) ob) \<and>
     (o_ctx (observers w ob) = Some c \<and> c < length (contexts w) \<longrightarrow>
        ctx_invalidated (contexts (Observer_destroy ob w) ! c)) \<and>
     (o_destroyed (observers w1 ob) \<longrightarrow> Observer_on_flush_cb_run F' ob w1 = (Return NoneObj, w1)) \<and>
     (rtranclp (flush_step F) (Observer_destroy ob w) w2 \<longrightarrow>
        o_destroyed (observers w2 ob) \<and> o_exec_count (observers w2 ob) = o_exec_count (observers w ob)) \<and>
     (flush n F (Observer_destroy ob w) = Some (res, w3) \<longrightarrow>
        o_destroyed (observers w3 ob) \<and> o_exec_count (observers w3 ob) = o_exec_count (observers w ob))"
proof -
  have d: "o_destroyed (observers (Observer_destroy ob w) ob)"
    "o_exec_count (observers (Observer_destroy ob w) ob) = o_exec_count (observers w ob)"
    "o_ctx (observers w ob) = Some c \<and> c < length (contexts w) \<longrightarrow>
       ctx_invalidated (contexts (Observer_destroy ob w) ! c)"
    by (simp_all add: Observer_destroy_facts)
  have skip: "Observer_on_flush_cb_run F' ob w1 = (Return NoneObj, w1)"
    if "o_destroyed (observers w1 ob)"
    using that by (simp add: Observer_on_flush_cb_run_def)
  have steps: "o_destroyed (observers w2 ob) \<and> o_exec_count (observers w2 ob) = o_exec_count (observers w ob)"
    if "rtranclp (flush_step F) (Observer_destroy ob w) w2"
    using flush_steps_destroyed[OF assms that d(1)] d(2) by simp
  have fl: "o_destroyed (observers w3 ob) \<and> o_exec_count (observers w3 ob) = o_exec_count (observers w ob)"
    if "flush n F (Observer_destroy ob w) = Some (res, w3)"
    using flush_destroyed[OF assms that d(1)] d(2) by simp
  from d(1) d(3) skip steps fl show ?thesis by blast
qed

subsection \<open>The properties on the concrete worlds\<close>

lemmas model_defs =
  ReactiveVal_init_def ReactiveVal_get_def ReactiveVal_set_def ReactiveVal_call_def
  ReactiveValues_getitem_def ReactiveValues_setitem_def
  Dependents_register_def upd_val_def upd_reactive_def upd_observer_def upd_context_def
  Context_new_def Context_add_pending_flush_def Context_on_flush_def Context_on_invalidate_def
  Context_run_def session_context_def call_external_def
  Reactive_init_def Reactive_get_value_def Reactive_update_value_def Reactive_run_func_def
  Reactive_func_entry_def py_raise_def func_of_def
  Observer_init_def Observer_create_context_def Observer_run_def Observer_on_flush_cb_run_def
  Observer_func_entry_def Observer_destroy_def session_register_on_ended_def flush_one_def
  Context_invalidate_def Dependents_invalidate_def Dependents_invalidate_with_def finished_def
  live_contexts_def Let_def

lemmas example_defs =
  boom_def five_def example_funcs_def example_funcs_fixed_def empty_world_def reading_world_def
  read_world_def no_values_def fresh_reactive_world_def computed_world_def
  failing_reactive_world_def failed_world_def pending_observer_world_def observing_world_def

text \<open>
  The stored integer object written again, and an equal integer in a new object.
\<close>

theorem ReactiveVal_set_by_identity_witness:
  "py_is (rv_value (reactive_vals read_world 0)) (Obj 1 (IntV 4)) \<and>
   ReactiveVal_set 0 (Obj 1 (IntV 4)) read_world = (False, read_world) \<and>
   \<not> py_is (rv_value (reactive_vals read_world 0)) (Obj 2 (IntV 4)) \<and>
   py_eq (rv_value (reactive_vals read_world 0)) (Obj 2 (IntV 4)) \<and>
   fst (ReactiveVal_set 0 (Obj 2 (IntV 4)) read_world) = True \<and>
   rv_value (reactive_vals (snd (ReactiveVal_set 0 (Obj 2 (IntV 4)) read_world)) 0) = Obj 2 (IntV 4) \<and>
   0 \<in> set (rv_dependents (reactive_vals read_world 0)) \<and>
   0 < length (contexts read_world) \<and>
   ctx_invalidated (contexts (snd (ReactiveVal_set 0 (Obj 2 (IntV 4)) read_world)) ! 0)"
proof -
  have h: "py_is (rv_value (reactive_vals read_world 0)) (Obj 1 (IntV 4))"
    "\<not> py_is (rv_value (reactive_vals read_world 0)) (Obj 2 (IntV 4))"
    "py_eq (rv_value (reactive_vals read_world 0)) (Obj 2 (IntV 4))"
    "0 \<in> set (rv_dependents (reactive_vals read_world 0))"
    "0 < length (contexts read_world)"
    by (simp_all add: model_defs example_defs)
  from ReactiveVal_set_by_identity[of read_world 0 "Obj 1 (IntV 4)" 0] h(1)
  have a: "ReactiveVal_set 0 (Obj 1 (IntV 4)) read_world = (False, read_world)" by blast
  from ReactiveVal_set_by_identity[of read_world 0 "Obj 2 (IntV 4)" 0] h(2,4,5)
  have b: "fst (ReactiveVal_set 0 (Obj 2 (IntV 4)) read_world) = True"
    "rv_value (reactive_vals (snd (ReactiveVal_set 0 (Obj 2 (IntV 4)) read_world)) 0) = Obj 2 (IntV 4)"
    "ctx_invalidated (contexts (snd (ReactiveVal_set 0 (Obj 2 (IntV 4)) read_world)) ! 0)"
    by auto
  from h a b show ?thesis by blast
qed

text \<open>
  The reactive on the raising function: first read, second read, invalidation, and the
  read after the function has been fixed.
\<close>

theorem Reactive_error_sticky_witness:
  "(r_invalidated (reactives failing_reactive_world 0) \<or> r_running (reactives failing_reactive_world 0)) \<and>
   body (func_of example_funcs (r_func (reactives failing_reactive_world 0)))
     (Reactive_func_entry 0 failing_reactive_world) =
       (Raise boom, Reactive_func_entry 0 failing_reactive_world) \<and>
   isinstance_Exception boom \<and>
   fst (Reactive_get_value example_funcs 0 failing_reactive_world) = Raise boom \<and>
   \<not> r_running (reactives failing_reactive_world 0) \<and>
   \<not> r_invalidated (reactives (Reactive_func_entry 0 failing_reactive_world) 0) \<and>
   fst (Reactive_get_value example_funcs_fixed 0 failed_world) = Raise boom \<and>
   r_exec_count (reactives (snd (Reactive_get_value example_funcs_fixed 0 failed_world)) 0) =
     r_exec_count (reactives failed_world 0) \<and>
   0 < length (contexts failed_world) \<and>
   \<not> ctx_invalidated (contexts failed_world ! 0) \<and>
   Reactive_on_invalidate_cb 0 \<in> set (ctx_invalidate_callbacks (contexts failed_world ! 0)) \<and>
   r_invalidated (reactives (Context_invalidate 0 failed_world) 0) \<and>
   body (func_of example_funcs_fixed (r_func (reactives (Context_invalidate 0 failed_world) 0)))
     (Reactive_func_entry 0 (Context_invalidate 0 failed_world)) =
       (Return five, Reactive_func_entry 0 (Context_invalidate 0 failed_world)) \<and>
   \<not> r_error (reactives (Reactive_func_entry 0 (Context_invalidate 0 failed_world)) 0) \<and>
   fst (Reactive_get_value example_funcs_fixed 0 (Context_invalidate 0 failed_world)) = Return five \<and>
   r_error (reactives failed_world 0) \<and> r_value (reactives failed_world 0) = boom \<and>
   \<not> r_invalidated (reactives failed_world 0) \<and> \<not> r_running (reactives failed_world 0) \<and>
   Reactive_get_value example_funcs_fixed 0 failed_world =
     (Raise boom, Dependents_register (ReactiveDependents 0) failed_world)"
proof -
  let ?e = "Reactive_func_entry 0 failing_reactive_world"
  let ?w3 = "Context_invalidate 0 failed_world"
  have h1: "r_invalidated (reactives failing_reactive_world 0) \<or> r_running (reactives failing_reactive_world 0)"
    by (simp add: model_defs example_defs)
  have f0: "r_func (reactives failing_reactive_world 0) = UserFunc 0"
    by (simp add: model_defs example_defs)
  have h2: "body (func_of example_funcs (r_func (reactives failing_reactive_world 0))) ?e = (Raise boom, ?e)"
    by (simp add: f0 func_of_def example_funcs_def)
  have h3: "isinstance_Exception boom" by (simp add: boom_def)
  have h4: "\<not> r_running (reactives failing_reactive_world 0)"
    by (simp add: model_defs example_defs)
  have h5: "\<not> r_invalidated (reactives ?e 0)"
    by (simp add: Reactive_func_entry_facts)
  have h6: "0 < length (contexts failed_world)"
    "\<not> ctx_invalidated (contexts failed_world ! 0)"
    "Reactive_on_invalidate_cb 0 \<in> set (ctx_invalidate_callbacks (contexts failed_world ! 0))"
    by (simp_all add: model_defs example_defs)
  have f3: "r_func (reactives ?w3 0) = UserFunc 0"
    using Context_invalidate_cascade[of failed_world 0]
    by (simp add: cascade_def) (simp add: model_defs example_defs)
  have h7: "body (func_of example_funcs_fixed (r_func (reactives ?w3 0))) (Reactive_func_entry 0 ?w3) =
       (Return five, Reactive_func_entry 0 ?w3)"
    by (simp add: f3 func_of_def example_funcs_fixed_def)
  have h8: "\<not> r_error (reactives (Reactive_func_entry 0 ?w3) 0)"
    by (simp add: Reactive_func_entry_facts)
  note t = Reactive_error_sticky[OF h1 h2 h3,
      of example_funcs_fixed 0 failed_world ?w3 five "Reactive_func_entry 0 ?w3" failed_world,
      folded failed_world_def]
  have h9: "\<not> r_invalidated (reactives failed_world 0)" "\<not> r_running (reactives failed_world 0)"
    by (simp_all add: model_defs example_defs)
  from t have e: "r_error (reactives failed_world 0)" "r_value (reactives failed_world 0) = boom"
    by blast+
  from t e h9 have g: "Reactive_get_value example_funcs_fixed 0 failed_world =
     (Raise boom, Dependents_register (ReactiveDependents 0) failed_world)"
    by blast
  from t h6 have i: "r_invalidated (reactives ?w3 0)" by blast
  from t h4 h5 have s:
    "fst (Reactive_get_value example_funcs 0 failing_reactive_world) = Raise boom"
    "fst (Reactive_get_value example_funcs_fixed 0 failed_world) = Raise boom"
    "r_exec_count (reactives (snd (Reactive_get_value example_funcs_fixed 0 failed_world)) 0) =
       r_exec_count (reactives failed_world 0)"
    by simp_all
  from t i h7 h8 have r: "fst (Reactive_get_value example_funcs_fixed 0 ?w3) = Return five"
    by blast
  from h1 h2 h3 h4 h5 h6 h7 h8 h9 e g i s r show ?thesis
    by blast
qed

text \<open>A computed reactive read again, and a fresh reactive read for the first time.\<close>

theorem Reactive_get_value_recomputes_iff_stale_witness:
  "\<not> r_invalidated (reactives computed_world 0) \<and> \<not> r_running (reactives computed_world 0) \<and>
   \<not> r_error (reactives computed_world 0) \<and>
   Reactive_get_value example_funcs_fixed 0 computed_world = Reactive_get_value example_funcs 0 computed_world \<and>
   r_exec_count (reactives (snd (Reactive_get_value example_funcs 0 computed_world)) 0) =
     r_exec_count (reactives computed_world 0) \<and>
   fst (Reactive_get_value example_funcs 0 computed_world) = Return (r_value (reactives computed_world 0)) \<and>
   Reactive_get_value example_funcs 0 (snd (Reactive_get_value example_funcs 0 computed_world)) =
     Reactive_get_value example_funcs 0 computed_world \<and>
   (r_invalidated (reactives fresh_reactive_world 0) \<or> r_running (reactives fresh_reactive_world 0)) \<and>
   body (func_of example_funcs (r_func (reactives fresh_reactive_world 0)))
     (Reactive_func_entry 0 fresh_reactive_world) =
       (Return five, Reactive_func_entry 0 fresh_reactive_world) \<and>
   r_exec_count (reactives (Reactive_func_entry 0 fresh_reactive_world) 0) =
     r_exec_count (reactives fresh_reactive_world 0) + 1 \<and>
   fst (Reactive_get_value example_funcs 0 fresh_reactive_world) = Return five"
proof -
  let ?e = "Reactive_func_entry 0 fresh_reactive_world"
  have c: "\<not> r_invalidated (reactives computed_world 0)" "\<not> r_running (reactives computed_world 0)"
    "\<not> r_error (reactives computed_world 0)"
    by (simp_all add: model_defs example_defs)
  have s: "r_invalidated (reactives fresh_reactive_world 0) \<or> r_running (reactives fresh_reactive_world 0)"
    by (simp add: model_defs example_defs)
  have f1: "r_func (reactives fresh_reactive_world 0) = UserFunc 1"
    by (simp add: model_defs example_defs)
  have b: "body (func_of example_funcs (r_func (reactives fresh_reactive_world 0))) ?e = (Return five, ?e)"
    by (simp add: f1 func_of_def example_funcs_def)
  have n: "\<not> r_error (reactives ?e 0)"
    by (simp add: Reactive_func_entry_facts)
  from Reactive_get_value_recomputes_iff_stale[of computed_world 0 example_funcs_fixed example_funcs] c
  have a: "Reactive_get_value example_funcs_fixed 0 computed_world = Reactive_get_value example_funcs 0 computed_world"
    "r_exec_count (reactives (snd (Reactive_get_value example_funcs 0 computed_world)) 0) =
       r_exec_count (reactives computed_world 0)"
    "fst (Reactive_get_value example_funcs 0 computed_world) = Return (r_value (reactives computed_world 0))"
    "Reactive_get_value example_funcs 0 (snd (Reactive_get_value example_funcs 0 computed_world)) =
       Reactive_get_value example_funcs 0 computed_world"
    by blast+
  from Reactive_get_value_recomputes_iff_stale[of fresh_reactive_world 0 example_funcs example_funcs
      "Return five" ?e five] s b n
  have d: "r_exec_count (reactives ?e 0) = r_exec_count (reactives fresh_reactive_world 0) + 1"
    "fst (Reactive_get_value example_funcs 0 fresh_reactive_world) = Return five"
    by blast+
  from c s b a d show ?thesis by blast
qed

text \<open>The reactive on the function that returns, read once.\<close>

theorem Reactive_first_get_runs_once_witness:
  "\<not> is_coroutine (func_of example_funcs (UserFunc 1)) \<and>
   next_reactive empty_world = 0 \<and>
   fst (Reactive_init example_funcs (UserFunc 1) empty_world) = Inr 0 \<and>
   r_invalidated (reactives fresh_reactive_world 0) \<and>
   r_exec_count (reactives fresh_reactive_world 0) = 0 \<and>
   body (func_of example_funcs (UserFunc 1)) (Reactive_func_entry 0 fresh_reactive_world) =
     (Return five, Reactive_func_entry 0 fresh_reactive_world) \<and>
   r_exec_count (reactives (Reactive_func_entry 0 fresh_reactive_world) 0) = 1 \<and>
   r_exec_count (reactives (snd (Reactive_get_value example_funcs 0 fresh_reactive_world)) 0) = 1"
proof -
  let ?e = "Reactive_func_entry 0 fresh_reactive_world"
  have h: "\<not> is_coroutine (func_of example_funcs (UserFunc 1))"
    by (simp add: func_of_def example_funcs_def)
  have n: "next_reactive empty_world = 0" by (simp add: empty_world_def)
  have b: "body (func_of example_funcs (UserFunc 1)) ?e = (Return five, ?e)"
    by (simp add: func_of_def example_funcs_def)
  note t = Reactive_first_get_runs_once[OF h, of empty_world "Return five" ?e,
      unfolded n, folded fresh_reactive_world_def]
  from t b have "r_exec_count (reactives ?e 0) = 1" by blast
  with t b h n show ?thesis by blast
qed

text \<open>The four constructors on the wrong kind of function.\<close>

theorem constructors_check_coroutine_witness:
  "is_coroutine (func_of example_funcs (UserFunc 2)) \<and>
   Reactive_init example_funcs (UserFunc 2) empty_world =
     (Inl (TypeError (ascii ''Reactive requires a non-async function'')), empty_world) \<and>
   Observer_init example_funcs (UserFunc 2) empty_world =
     (Inl (TypeError (ascii ''Observer requires a non-async function'')), empty_world) \<and>
   \<not> is_coroutine (func_of example_funcs (UserFunc 1)) \<and>
   ReactiveAsync_init example_funcs (UserFunc 1) empty_world =
     (Inl (TypeError (ascii ''ReactiveAsync requires an async function'')), empty_world) \<and>
   ObserverAsync_init example_funcs (UserFunc 1) empty_world =
     (Inl (TypeError (ascii ''ObserverAsync requires an async function'')), empty_world)"
proof -
  have a: "is_coroutine (func_of example_funcs (UserFunc 2))"
    by (simp add: func_of_def example_funcs_def)
  have s: "\<not> is_coroutine (func_of example_funcs (UserFunc 1))"
    by (simp add: func_of_def example_funcs_def)
  from constructors_check_coroutine[of example_funcs "UserFunc 2" empty_world]
    constructors_check_coroutine[of example_funcs "UserFunc 1" empty_world] a s
  show ?thesis by blast
qed

text \<open>
  C9, as stated: a later write to the key invalidates the context that read it. Writing
  \<^verbatim>\<open>None\<close> does not: the auto-created \<^verbatim>\<open>ReactiveVal\<close> holds \<^verbatim>\<open>None\<close>, so \<^verbatim>\<open>set\<close> sees the same
  object and does nothing.
\<close>

theorem ReactiveValues_write_None_counterexample:
  "no_values (ascii ''k'') = None \<and> current_context reading_world = Some 0 \<and>
   0 < length (contexts reading_world) \<and>
   fst (ReactiveValues_getitem no_values (ascii ''k'') reading_world) = Inr NoneObj \<and>
   rv_dependents (reactive_vals (snd (snd (ReactiveValues_getitem no_values (ascii ''k'') reading_world))) 0) = [0] \<and>
   \<not> ctx_invalidated (contexts (snd (ReactiveValues_setitem
        (fst (snd (ReactiveValues_getitem no_values (ascii ''k'') reading_world))) (ascii ''k'') NoneObj
        (snd (snd (ReactiveValues_getitem no_values (ascii ''k'') reading_world))))) ! 0)"
  by (simp add: model_defs example_defs)

text \<open>The key read in context 0 and then written with an integer object.\<close>

theorem ReactiveValues_read_then_write_witness:
  "no_values (ascii ''k'') = None \<and> current_context reading_world = Some 0 \<and>
   0 < length (contexts reading_world) \<and> \<not> py_is NoneObj five \<and>
   fst (ReactiveValues_getitem no_values (ascii ''k'') reading_world) = Inr NoneObj \<and>
   fst (snd (ReactiveValues_getitem no_values (ascii ''k'') reading_world)) (ascii ''k'') = Some 0 \<and>
   fst (ReactiveValues_setitem
        (fst (snd (ReactiveValues_getitem no_values (ascii ''k'') reading_world))) (ascii ''k'') five
        (snd (snd (ReactiveValues_getitem no_values (ascii ''k'') reading_world)))) =
     fst (snd (ReactiveValues_getitem no_values (ascii ''k'') reading_world)) \<and>
   ctx_invalidated (contexts (snd (ReactiveValues_setitem
        (fst (snd (ReactiveValues_getitem no_values (ascii ''k'') reading_world))) (ascii ''k'') five
        (snd (snd (ReactiveValues_getitem no_values (ascii ''k'') reading_world))))) ! 0)"
proof -
  let ?g = "ReactiveValues_getitem no_values (ascii ''k'') reading_world"
  let ?s = "ReactiveValues_setitem (fst (snd ?g)) (ascii ''k'') five (snd (snd ?g))"
  have h: "no_values (ascii ''k'') = None" "current_context reading_world = Some 0"
    "0 < length (contexts reading_world)"
    by (simp_all add: example_defs)
  have n: "next_reactive_val reading_world = 0" by (simp add: example_defs)
  have g: "?g = (fst ?g, fst (snd ?g), snd (snd ?g))" by simp
  have s: "?s = (fst ?s, snd ?s)" by simp
  have x: "\<not> py_is NoneObj five" by (simp add: five_def)
  note t = ReactiveValues_read_then_write[OF h g s x, unfolded n]
  from t have k: "fst (snd ?g) (ascii ''k'') = Some 0" by simp
  from t have r: "fst ?g = Inr NoneObj" "fst ?s = fst (snd ?g)"
    "ctx_invalidated (contexts (snd ?s) ! 0)" by blast+
  from h x k r show ?thesis by blast
qed

text \<open>An observer constructed in the empty world, and its first flush turn.\<close>

theorem Observer_first_run_deferred_witness:
  "\<not> is_coroutine (func_of example_funcs (UserFunc 1)) \<and>
   fst (Observer_init example_funcs (UserFunc 1) empty_world) = Inr 0 \<and>
   o_exec_count (observers pending_observer_world 0) = 0 \<and>
   ctx_invalidated (contexts pending_observer_world ! 0) \<and>
   0 \<in> set (pending_flush pending_observer_world) \<and>
   is_coroutine (func_of example_funcs_fixed (UserFunc 1)) = is_coroutine (func_of example_funcs (UserFunc 1)) \<and>
   Observer_init example_funcs_fixed (UserFunc 1) empty_world =
     Observer_init example_funcs (UserFunc 1) empty_world \<and>
   o_exec_count (observers (snd (ReactiveVal_set 0 five pending_observer_world)) 0) = 0 \<and>
   o_exec_count (observers observing_world 0) = 1"
proof -
  have h: "\<not> is_coroutine (func_of example_funcs (UserFunc 1))"
    by (simp add: func_of_def example_funcs_def)
  have h': "is_coroutine (func_of example_funcs_fixed (UserFunc 1)) =
      is_coroutine (func_of example_funcs (UserFunc 1))"
    by (simp add: func_of_def example_funcs_def example_funcs_fixed_def)
  have n: "next_observer empty_world = 0" "length (contexts empty_world) = 0"
    by (simp_all add: empty_world_def)
  have i: "Observer_init example_funcs (UserFunc 1) empty_world =
      (fst (Observer_init example_funcs (UserFunc 1) empty_world), pending_observer_world)"
    by (simp add: pending_observer_world_def)
  note t = Observer_first_run_deferred[OF h i, of example_funcs_fixed 0 five, unfolded n]
  have r: "o_exec_count (observers observing_world 0) = 1"
    by (simp add: model_defs example_defs)
  from t h h' r show ?thesis by simp
qed

text \<open>The observer destroyed after its first run, and the flush that follows.\<close>

theorem Observer_destroy_terminal_witness:
  "leaves_destroyed example_funcs 0 \<and>
   o_ctx (observers observing_world 0) = Some 1 \<and> 1 < length (contexts observing_world) \<and>
   o_destroyed (observers (Observer_destroy 0 observing_world) 0) \<and>
   ctx_invalidated (contexts (Observer_destroy 0 observing_world) ! 1) \<and>
   Observer_on_flush_cb_run example_funcs 0 (Observer_destroy 0 observing_world) =
     (Return NoneObj, Observer_destroy 0 observing_world) \<and>
   rtranclp (flush_step example_funcs) (Observer_destroy 0 observing_world)
     (snd (flush_one example_funcs 1 (Observer_destroy 0 observing_world))) \<and>
   o_exec_count (observers (snd (flush_one example_funcs 1 (Observer_destroy 0 observing_world))) 0) =
     o_exec_count (observers observing_world 0) \<and>
   flush 2 example_funcs (Observer_destroy 0 observing_world) =
     Some (Return NoneObj, snd (flush_one example_funcs 1 (Observer_destroy 0 observing_world))) \<and>
   o_exec_count (observers observing_world 0) = 1"
proof -
  let ?d = "Observer_destroy 0 observing_world"
  let ?w2 = "snd (flush_one example_funcs 1 ?d)"
  have l: "leaves_destroyed example_funcs 0"
    by (simp add: leaves_destroyed_def example_funcs_def)
  have h: "o_ctx (observers observing_world 0) = Some 1" "1 < length (contexts observing_world)"
    "o_exec_count (observers observing_world 0) = 1"
    by (simp_all add: model_defs example_defs)
  have p: "1 \<in> set (pending_flush ?d)" "1 < length (contexts ?d)"
    by (simp_all add: model_defs example_defs)
  have "flush_step example_funcs ?d ?w2"
    by (rule flush_step.turn[OF p, of example_funcs "fst (flush_one example_funcs 1 ?d)"]) simp
  then have st: "rtranclp (flush_step example_funcs) ?d ?w2" by (rule r_into_rtranclp)
  have fl: "flush 2 example_funcs ?d = Some (Return NoneObj, ?w2)"
    by (simp add: model_defs example_defs numeral_2_eq_2)
  note t = Observer_destroy_terminal[OF l, of observing_world 1 ?d example_funcs ?w2 2
      "Return NoneObj" ?w2]
  from t h(1,2) have a: "o_destroyed (observers ?d 0)" "ctx_invalidated (contexts ?d ! 1)"
    by blast+
  from t a(1) have b: "Observer_on_flush_cb_run example_funcs 0 ?d = (Return NoneObj, ?d)"
    by blast
  from t st have c: "o_exec_count (observers ?w2 0) = o_exec_count (observers observing_world 0)"
    by blast
  from l h a b st c fl show ?thesis by blast
qed

end
